theory Spec2Isabelle
  imports Complex_Main
begin

section \<open>Latency flow: \<open>singlePing\<close> and \<open>testAverageConnection\<close>\<close>

text \<open>
  The popup component keeps its state in React hooks. The latency flow writes three of
  them: \<open>pingResult\<close>, \<open>testingAverage\<close> and \<open>avgProgress\<close>. The interface
  \<open>PingResult\<close> has three optional fields; an optional field that an object literal
  leaves out is \<open>None\<close> here.
\<close>

datatype ping_status = Pending | Success | Error

record PingResult =
  url :: string
  latency :: "int option"
  status :: ping_status
  isAverage :: "bool option"
  testCount :: "nat option"
  allLatencies :: "int list option"

text \<open>
  What one call of \<open>singlePing\<close> meets: the reading of \<open>performance.now()\<close> before
  the request, and what \<open>fetch\<close> does. The promise is rejected (a network error), or it
  resolves with a response; then the clock is read again. A clock reading is a double:
  milliseconds with a fractional part, not negative. It is given here by its value, a
  rational number.
\<close>

datatype fetch_outcome =
    FetchRejected
  | FetchResolved rat nat  \<comment> \<open>\<open>endTime\<close>, \<open>response.status\<close>\<close>

record ping_io =
  startTime :: rat
  fetched :: fetch_outcome

text \<open>
  \<open>response.ok\<close> is the getter of the Fetch API: true exactly when the status is in the
  range 200 to 299. \<open>Math.round\<close> rounds to the nearest integer, a tie towards
  \<open>+\<infinity>\<close>, and does so exactly.
\<close>

definition response_ok :: "nat \<Rightarrow> bool" where
  "response_ok st = (200 \<le> st \<and> st \<le> 299)"

definition Math_round :: "rat \<Rightarrow> int" where
  "Math_round x = \<lfloor>x + 1 / 2\<rfloor>"

text \<open>
  The subtraction \<open>endTime - startTime\<close> is the subtraction of doubles: the exact
  difference, rounded to the nearest double, a tie to the one with an even significand.
  \<open>bit_length n\<close> is the number of binary digits of \<open>n\<close>, \<open>binade a\<close> the exponent
  \<open>e\<close> with \<open>2 ^ e \<le> a < 2 ^ (e + 1)\<close> for a positive \<open>a\<close>. A double has 53 significant
  binary digits, so the doubles next to a number of binade \<open>e\<close> are the multiples of
  \<open>2 ^ (e - 52)\<close>, and those of \<open>2 ^ (- 1074)\<close> below the binade \<open>- 1022\<close>. The difference
  of two readings, which are not negative, does not exceed the larger of them: the
  rounding never overflows.
\<close>

fun bit_length :: "nat \<Rightarrow> nat" where
  "bit_length n = (if n = 0 then 0 else Suc (bit_length (n div 2)))"

declare bit_length.simps [simp del]

definition binade :: "rat \<Rightarrow> int" where
  "binade a =
     (if 1 \<le> a then int (bit_length (nat \<lfloor>a\<rfloor>)) - 1
      else - int (bit_length (nat (\<lceil>1 / a\<rceil> - 1))))"

definition round_half_even :: "rat \<Rightarrow> int" where
  "round_half_even y =
     (let f = \<lfloor>y\<rfloor>; r = y - of_int f
      in if r < 1 / 2 then f
         else if 1 / 2 < r then f + 1
         else if even f then f else f + 1)"

definition to_double :: "rat \<Rightarrow> rat" where
  "to_double x =
     (if x = 0 then 0
      else
        let e = max (binade \<bar>x\<bar>) (- 1022);
            q = 2 powi (e - 52)
        in q * of_int (round_half_even (x / q)))"

definition double_minus :: "rat \<Rightarrow> rat \<Rightarrow> rat" where
  "double_minus a b = to_double (a - b)"

definition is_double :: "rat \<Rightarrow> bool" where
  "is_double x = (to_double x = x \<and> \<bar>x\<bar> < 2 ^ 1024)"

definition singlePing :: "ping_io \<Rightarrow> int option" where
  "singlePing io =
     (case fetched io of
        FetchRejected \<Rightarrow> None
      | FetchResolved endTime st \<Rightarrow>
          if response_ok st then Some (Math_round (double_minus endTime (startTime io))) else None)"

text \<open>
  The effects of \<open>testAverageConnection\<close>, in the order in which the function performs
  them: the three state setters, the awaited call of \<open>singlePing\<close> of iteration \<open>i\<close>,
  and the awaited timer between two probes.
\<close>

datatype effect =
    SetTestingAverage bool
  | SetAvgProgress nat
  | SetPingResult PingResult
  | AwaitSinglePing nat
  | AwaitTimeout nat

record vpn_state =
  pingResult :: "PingResult option"
  testingAverage :: bool
  avgProgress :: nat

fun apply_effect :: "vpn_state \<Rightarrow> effect \<Rightarrow> vpn_state" where
  "apply_effect s (SetTestingAverage b) = s\<lparr>testingAverage := b\<rparr>"
| "apply_effect s (SetAvgProgress n) = s\<lparr>avgProgress := n\<rparr>"
| "apply_effect s (SetPingResult r) = s\<lparr>pingResult := Some r\<rparr>"
| "apply_effect s (AwaitSinglePing i) = s"
| "apply_effect s (AwaitTimeout ms) = s"

definition run_effects :: "vpn_state \<Rightarrow> effect list \<Rightarrow> vpn_state" where
  "run_effects s es = foldl apply_effect s es"

text \<open>
  The \<open>for\<close> loop of \<open>testAverageConnection\<close>. \<open>world i\<close> is what the probe of
  iteration \<open>i\<close> meets; \<open>latencies\<close> is the array the loop pushes to, \<open>trace\<close> the
  effects so far. The loop bound is the local constant \<open>TEST_COUNT\<close>, a parameter here.
\<close>

function probe_loop ::
  "(nat \<Rightarrow> ping_io) \<Rightarrow> nat \<Rightarrow> nat \<Rightarrow> int list \<Rightarrow> effect list \<Rightarrow> int list \<times> effect list"
where
  "probe_loop world count i latencies trace =
     (if i < count then
        let trace1 = trace @ [SetAvgProgress (i + 1)];
            l = singlePing (world i);
            trace2 = trace1 @ [AwaitSinglePing i];
            latencies' = (case l of Some v \<Rightarrow> latencies @ [v] | None \<Rightarrow> latencies);
            trace3 = (if i < count - 1 then trace2 @ [AwaitTimeout 200] else trace2)
        in probe_loop world count (i + 1) latencies' trace3
      else (latencies, trace))"
  by pat_completeness auto
termination
  by (relation "measure (\<lambda>(world, count, i, latencies, trace). count - i)") auto

declare probe_loop.simps [simp del]

definition pending_result :: "nat \<Rightarrow> PingResult" where
  "pending_result count =
     \<lparr>url = ''cloudflare.com'', latency = None, status = Pending,
      isAverage = Some True, testCount = Some count, allLatencies = None\<rparr>"

definition success_result :: "int list \<Rightarrow> PingResult" where
  "success_result latencies =
     (let avgLatency =
            Math_round (of_int (foldl (\<lambda>a b. a + b) 0 latencies) / of_nat (length latencies))
      in \<lparr>url = ''cloudflare.com'', latency = Some avgLatency, status = Success,
          isAverage = Some True, testCount = Some (length latencies),
          allLatencies = Some latencies\<rparr>)"

definition error_result :: PingResult where
  "error_result =
     \<lparr>url = ''cloudflare.com'', latency = None, status = Error,
      isAverage = Some True, testCount = None, allLatencies = None\<rparr>"

definition testAverageConnection_with :: "nat \<Rightarrow> (nat \<Rightarrow> ping_io) \<Rightarrow> effect list" where
  "testAverageConnection_with count world =
     (let trace0 = [SetTestingAverage True, SetAvgProgress 0, SetPingResult (pending_result count)];
          (latencies, trace1) = probe_loop world count 0 [] trace0;
          trace2 = (if length latencies > 0
                  then trace1 @ [SetPingResult (success_result latencies)]
                  else trace1 @ [SetPingResult error_result])
      in trace2 @ [SetTestingAverage False, SetAvgProgress 0])"

definition TEST_COUNT :: nat where
  "TEST_COUNT = 5"

definition testAverageConnection :: "(nat \<Rightarrow> ping_io) \<Rightarrow> effect list" where
  "testAverageConnection world = testAverageConnection_with TEST_COUNT world"

text \<open>The \<open>pingResult\<close> the popup shows once the averaged test has returned.\<close>

definition average_result :: "vpn_state \<Rightarrow> nat \<Rightarrow> (nat \<Rightarrow> ping_io) \<Rightarrow> PingResult option" where
  "average_result s count world = pingResult (run_effects s (testAverageConnection_with count world))"

text \<open>The samples of the probes that succeeded, in the order of the probes.\<close>

definition successful_samples :: "nat \<Rightarrow> (nat \<Rightarrow> ping_io) \<Rightarrow> int list" where
  "successful_samples count world = List.map_filter (\<lambda>i. singlePing (world i)) [0..<count]"

text \<open>The effects of one iteration of the loop.\<close>

definition iteration_effects :: "nat \<Rightarrow> nat \<Rightarrow> effect list" where
  "iteration_effects count j =
     [SetAvgProgress (j + 1), AwaitSinglePing j] @ (if j < count - 1 then [AwaitTimeout 200] else [])"

text \<open>
  Reading a trace: the calls of \<open>setAvgProgress\<close> and the probes among the effects, and
  whether \<open>setAvgProgress (i + 1)\<close> is called at any time after probe \<open>i\<close> has
  completed.
\<close>

fun progress_or_probe :: "effect \<Rightarrow> bool" where
  "progress_or_probe (SetAvgProgress n) = True"
| "progress_or_probe (AwaitSinglePing i) = True"
| "progress_or_probe e = False"

definition fires_after_probe :: "effect list \<Rightarrow> nat \<Rightarrow> bool" where
  "fires_after_probe tr i =
     (SetAvgProgress (i + 1) \<in> set (dropWhile (\<lambda>e. e \<noteq> AwaitSinglePing i) tr))"

text \<open>
  A run used in the examples: the probes start at 1000 ms; probe 1 meets a network error,
  probe 3 a response with status 503, and probe \<open>i\<close> of the others a response with
  status 200 after \<open>10 * i + 10.5\<close> ms. And one probe whose clock readings are the
  doubles nearest to 100.2 and to 228.7, with a response of status 200.
\<close>

definition inexact_probe :: ping_io where
  "inexact_probe =
     \<lparr>startTime = 7050948166601933 / 70368744177664,
      fetched = FetchResolved (4023332948357939 / 17592186044416) 200\<rparr>"


definition sample_world :: "nat \<Rightarrow> ping_io" where
  "sample_world i =
     \<lparr>startTime = 1000,
      fetched = (if i = 1 then FetchRejected
                 else if i = 3 then FetchResolved 1030 503
                 else FetchResolved (1000 + of_nat i * 10 + 21 / 2) 200)\<rparr>"

text \<open>A run in which every probe fails: a network error, or a response with status 500.\<close>

definition failing_world :: "nat \<Rightarrow> ping_io" where
  "failing_world i =
     \<lparr>startTime = 0, fetched = (if even i then FetchRejected else FetchResolved 12 500)\<rparr>"

definition initial_vpn_state :: vpn_state where
  "initial_vpn_state = \<lparr>pingResult = None, testingAverage = False, avgProgress = 0\<rparr>"

section \<open>Chat flow: strings, \<open>JSON.parse\<close> and the values it returns\<close>

text \<open>
  A JavaScript string is a sequence of UTF-16 code units. \<open>utf16\<close> gives the code units
  of a literal written in ASCII.
\<close>

type_synonym jsstring = "nat list"

definition utf16 :: "string \<Rightarrow> jsstring" where
  "utf16 s = map of_char s"

text \<open>\<open>String.prototype.startsWith\<close>, \<open>split\<close> with a one-unit separator, and \<open>trim\<close>.\<close>

definition startsWith :: "jsstring \<Rightarrow> jsstring \<Rightarrow> bool" where
  "startsWith s p = (take (length p) s = p)"

fun split_on :: "nat \<Rightarrow> jsstring \<Rightarrow> jsstring list" where
  "split_on sep [] = [[]]"
| "split_on sep (c # cs) =
     (if c = sep then [] # split_on sep cs
      else (case split_on sep cs of
              [] \<Rightarrow> [[c]]
            | l # ls \<Rightarrow> (c # l) # ls))"

definition is_js_whitespace :: "nat \<Rightarrow> bool" where
  "is_js_whitespace c =
     (c \<in> {9, 10, 11, 12, 13, 32, 160, 5760, 8232, 8233, 8239, 8287, 12288, 65279}
      \<or> (8192 \<le> c \<and> c \<le> 8202))"

definition trim :: "jsstring \<Rightarrow> jsstring" where
  "trim s = rev (dropWhile is_js_whitespace (rev (dropWhile is_js_whitespace s)))"

text \<open>The decimal digits of a natural number, as a template literal prints a status.\<close>

fun decimal :: "nat \<Rightarrow> jsstring" where
  "decimal n = (if n < 10 then [48 + n] else decimal (n div 10) @ [48 + n mod 10])"

declare decimal.simps [simp del]

subsection \<open>JSON values\<close>

text \<open>
  A number keeps the text it was written with: its value is a double, and the only things
  the chat flow asks of it are whether it is zero and how it prints.
\<close>

datatype json =
    JNull
  | JBool bool
  | JNumber jsstring
  | JString jsstring
  | JArray "json list"
  | JObject "(jsstring \<times> json) list"

subsection \<open>\<open>JSON.parse\<close>: tokens\<close>

datatype token =
    TLBrace | TRBrace | TLBracket | TRBracket | TColon | TComma
  | TString jsstring | TNumber jsstring | TTrue | TFalse | TNull

definition is_json_ws :: "nat \<Rightarrow> bool" where
  "is_json_ws c = (c = 32 \<or> c = 9 \<or> c = 10 \<or> c = 13)"

definition is_digit :: "nat \<Rightarrow> bool" where
  "is_digit c = (48 \<le> c \<and> c \<le> 57)"

definition hex_value :: "nat \<Rightarrow> nat option" where
  "hex_value c =
     (if 48 \<le> c \<and> c \<le> 57 then Some (c - 48)
      else if 65 \<le> c \<and> c \<le> 70 then Some (c - 55)
      else if 97 \<le> c \<and> c \<le> 102 then Some (c - 87)
      else None)"

definition hex4 :: "nat \<Rightarrow> nat \<Rightarrow> nat \<Rightarrow> nat \<Rightarrow> nat option" where
  "hex4 a b c d =
     (case (hex_value a, hex_value b, hex_value c, hex_value d) of
        (Some x, Some y, Some z, Some w) \<Rightarrow> Some (((x * 16 + y) * 16 + z) * 16 + w)
      | _ \<Rightarrow> None)"

definition escape_char :: "nat \<Rightarrow> nat option" where
  "escape_char e =
     (if e = 34 then Some 34 else if e = 92 then Some 92 else if e = 47 then Some 47
      else if e = 98 then Some 8 else if e = 102 then Some 12 else if e = 110 then Some 10
      else if e = 114 then Some 13 else if e = 116 then Some 9 else None)"

text \<open>
  The characters of a string after its opening quote: the decoded string and the input
  after the closing quote.
\<close>

fun lex_string :: "jsstring \<Rightarrow> jsstring \<Rightarrow> (jsstring \<times> jsstring) option" where
  "lex_string acc [] = None"
| "lex_string acc (c # cs) =
     (if c = 34 then Some (acc, cs)
      else if c = 92 then
        (case cs of
           [] \<Rightarrow> None
         | e # es \<Rightarrow>
             if e = 117 then
               (case es of
                  h1 # h2 # h3 # h4 # rest \<Rightarrow>
                    (case hex4 h1 h2 h3 h4 of
                       None \<Rightarrow> None
                     | Some u \<Rightarrow> lex_string (acc @ [u]) rest)
                | _ \<Rightarrow> None)
             else
               (case escape_char e of
                  None \<Rightarrow> None
                | Some u \<Rightarrow> lex_string (acc @ [u]) es))
      else if c < 32 then None
      else lex_string (acc @ [c]) cs)"

declare lex_string.simps [simp del]

text \<open>The grammar of a number: \<open>-? (0 | [1-9][0-9]*) (. [0-9]+)? ([eE] [+-]? [0-9]+)?\<close>.\<close>

definition is_number_char :: "nat \<Rightarrow> bool" where
  "is_number_char c = (is_digit c \<or> c = 43 \<or> c = 45 \<or> c = 46 \<or> c = 69 \<or> c = 101)"

definition valid_exponent :: "jsstring \<Rightarrow> bool" where
  "valid_exponent r =
     (case r of
        [] \<Rightarrow> True
      | c # cs \<Rightarrow>
          (c = 101 \<or> c = 69) \<and>
          (let ds = (case cs of [] \<Rightarrow> [] | s # t \<Rightarrow> if s = 43 \<or> s = 45 then t else cs)
           in ds \<noteq> [] \<and> list_all is_digit ds))"

definition valid_fraction :: "jsstring \<Rightarrow> bool" where
  "valid_fraction r =
     (case r of
        [] \<Rightarrow> True
      | c # cs \<Rightarrow>
          if c = 46 then
            (case cs of [] \<Rightarrow> False | d # ds \<Rightarrow> is_digit d \<and> valid_exponent (dropWhile is_digit ds))
          else valid_exponent r)"

definition valid_number :: "jsstring \<Rightarrow> bool" where
  "valid_number l =
     (case (case l of [] \<Rightarrow> [] | s # t \<Rightarrow> if s = 45 then t else l) of
        [] \<Rightarrow> False
      | d # ds \<Rightarrow>
          if d = 48 then valid_fraction ds
          else is_digit d \<and> valid_fraction (dropWhile is_digit ds))"

lemma lex_string_shorter: "lex_string acc cs = Some (s, rest) \<Longrightarrow> length rest < Suc (length cs)"
proof (induction acc cs rule: lex_string.induct)
  case (1 acc)
  then show ?case by (simp add: lex_string.simps)
next
  case (2 acc c cs)
  show ?case
    using "2.prems" "2.IH"
    unfolding lex_string.simps(2) [of acc c cs]
    by (fastforce split: if_splits list.splits option.splits)
qed

text \<open>
  The token that starts with the code unit \<open>c\<close>, which is no white space, and the input
  after the token.
\<close>

definition next_token :: "nat \<Rightarrow> jsstring \<Rightarrow> (token \<times> jsstring) option" where
  "next_token c cs =
     (if c = 123 then Some (TLBrace, cs)
      else if c = 125 then Some (TRBrace, cs)
      else if c = 91 then Some (TLBracket, cs)
      else if c = 93 then Some (TRBracket, cs)
      else if c = 58 then Some (TColon, cs)
      else if c = 44 then Some (TComma, cs)
      else if c = 34 then
        (case lex_string [] cs of
           None \<Rightarrow> None
         | Some (s, rest) \<Rightarrow> Some (TString s, rest))
      else if c = 45 \<or> is_digit c then
        (if valid_number (c # takeWhile is_number_char cs)
         then Some (TNumber (c # takeWhile is_number_char cs), dropWhile is_number_char cs)
         else None)
      else if take 4 (c # cs) = utf16 ''true'' then Some (TTrue, drop 3 cs)
      else if take 5 (c # cs) = utf16 ''false'' then Some (TFalse, drop 4 cs)
      else if take 4 (c # cs) = utf16 ''null'' then Some (TNull, drop 3 cs)
      else None)"

lemma next_token_shorter: "next_token c cs = Some (tok, rest) \<Longrightarrow> length rest < Suc (length cs)"
  using lex_string_shorter [of "[]" cs] length_dropWhile_le [of is_number_char cs]
  by (auto simp: next_token_def less_Suc_eq_le split: if_splits option.splits)

function tokenize :: "jsstring \<Rightarrow> token list option" where
  "tokenize [] = Some []"
| "tokenize (c # cs) =
     (if is_json_ws c then tokenize cs
      else
        (case next_token c cs of
           None \<Rightarrow> None
         | Some (tok, rest) \<Rightarrow> map_option ((#) tok) (tokenize rest)))"
  by pat_completeness auto
termination
proof (relation "measure length")
  fix c cs x tok rest
  assume "next_token c cs = Some x" "(tok, rest) = x"
  then show "(rest, c # cs) \<in> measure length"
    using next_token_shorter [of c cs tok rest] by simp
qed simp_all

declare tokenize.simps [simp del]

subsection \<open>\<open>JSON.parse\<close>: values\<close>

text \<open>
  The parser reads the tokens from left to right and keeps the containers that are still
  open on a stack, each with the elements read so far and with what may come next.
\<close>

datatype array_state = AStart | AAfterValue | AAfterComma

datatype object_state = OStart | OAfterKey jsstring | OAfterColon jsstring | OAfterValue | OAfterComma

datatype frame =
    ArrayFrame array_state "json list"
  | ObjectFrame object_state "(jsstring \<times> json) list"

text \<open>
  A complete value goes to the innermost open container, or is the result when none is
  open.
\<close>

fun push_value :: "json \<Rightarrow> frame list \<Rightarrow> (frame list \<times> json option) option" where
  "push_value v [] = Some ([], Some v)"
| "push_value v (ArrayFrame AAfterValue xs # fs) = None"
| "push_value v (ArrayFrame st xs # fs) = Some (ArrayFrame AAfterValue (xs @ [v]) # fs, None)"
| "push_value v (ObjectFrame (OAfterColon k) kvs # fs) =
     Some (ObjectFrame OAfterValue (kvs @ [(k, v)]) # fs, None)"
| "push_value v (ObjectFrame st kvs # fs) = None"

fun parse_step :: "token \<Rightarrow> frame list \<Rightarrow> (frame list \<times> json option) option" where
  "parse_step TLBracket fs = Some (ArrayFrame AStart [] # fs, None)"
| "parse_step TLBrace fs = Some (ObjectFrame OStart [] # fs, None)"
| "parse_step TRBracket (ArrayFrame AStart xs # fs) = push_value (JArray xs) fs"
| "parse_step TRBracket (ArrayFrame AAfterValue xs # fs) = push_value (JArray xs) fs"
| "parse_step TRBracket fs = None"
| "parse_step TRBrace (ObjectFrame OStart kvs # fs) = push_value (JObject kvs) fs"
| "parse_step TRBrace (ObjectFrame OAfterValue kvs # fs) = push_value (JObject kvs) fs"
| "parse_step TRBrace fs = None"
| "parse_step TComma (ArrayFrame AAfterValue xs # fs) = Some (ArrayFrame AAfterComma xs # fs, None)"
| "parse_step TComma (ObjectFrame OAfterValue kvs # fs) = Some (ObjectFrame OAfterComma kvs # fs, None)"
| "parse_step TComma fs = None"
| "parse_step TColon (ObjectFrame (OAfterKey k) kvs # fs) = Some (ObjectFrame (OAfterColon k) kvs # fs, None)"
| "parse_step TColon fs = None"
| "parse_step (TString s) (ObjectFrame OStart kvs # fs) = Some (ObjectFrame (OAfterKey s) kvs # fs, None)"
| "parse_step (TString s) (ObjectFrame OAfterComma kvs # fs) = Some (ObjectFrame (OAfterKey s) kvs # fs, None)"
| "parse_step (TString s) fs = push_value (JString s) fs"
| "parse_step (TNumber l) fs = push_value (JNumber l) fs"
| "parse_step TTrue fs = push_value (JBool True) fs"
| "parse_step TFalse fs = push_value (JBool False) fs"
| "parse_step TNull fs = push_value JNull fs"

fun parse_tokens :: "frame list \<Rightarrow> json option \<Rightarrow> token list \<Rightarrow> json option" where
  "parse_tokens fs res [] = (if fs = [] then res else None)"
| "parse_tokens fs (Some v) (t # ts) = None"
| "parse_tokens fs None (t # ts) =
     (case parse_step t fs of
        None \<Rightarrow> None
      | Some (fs', res') \<Rightarrow> parse_tokens fs' res' ts)"

text \<open>\<open>JSON.parse\<close>; \<open>None\<close> is the \<open>SyntaxError\<close> it throws.\<close>

definition JSON_parse :: "jsstring \<Rightarrow> json option" where
  "JSON_parse text = (case tokenize text of None \<Rightarrow> None | Some ts \<Rightarrow> parse_tokens [] None ts)"

subsection \<open>What the chat flow does with a parsed value\<close>

text \<open>
  Property access \<open>v.k\<close> for the keys the flow reads (\<open>type\<close>, \<open>delta\<close>, \<open>message\<close>,
  \<open>content\<close>, \<open>text\<close>). \<open>None\<close> is \<open>undefined\<close>. An object has the property when the key
  occurs in it, with the value of the last occurrence; an array, a string, a number and a
  boolean have none of these keys. Reading a property of \<open>null\<close> throws; the callers
  treat \<open>null\<close> before they call \<open>getProp\<close>.
\<close>

fun getProp :: "json \<Rightarrow> jsstring \<Rightarrow> json option" where
  "getProp (JObject kvs) k = map_of (rev kvs) k"
| "getProp v k = None"

text \<open>Optional chaining \<open>a?.k\<close>: \<open>undefined\<close> when \<open>a\<close> is \<open>undefined\<close> or \<open>null\<close>.\<close>

fun optional_get :: "json option \<Rightarrow> jsstring \<Rightarrow> json option" where
  "optional_get None k = None"
| "optional_get (Some JNull) k = None"
| "optional_get (Some v) k = getProp v k"

definition delta_text :: "json \<Rightarrow> json option" where
  "delta_text parsed =
     optional_get (optional_get (optional_get (getProp parsed (utf16 ''delta''))
       (utf16 ''message'')) (utf16 ''content'')) (utf16 ''text'')"

text \<open>
  Truthiness and string conversion. Both need the double a number denotes:
  \<open>numberToString\<close> stands for the conversion of a number, given by its text, to a string
  (\<open>Number.prototype.toString\<close>); a number is falsy exactly when it prints as \<open>0\<close>. An
  array converts to its elements' conversions joined by commas, \<open>null\<close> among them giving
  the empty string, and an object to \<open>[object Object]\<close>; this is the conversion of an
  object that has no own property \<open>toString\<close>.
\<close>

fun truthy :: "(jsstring \<Rightarrow> jsstring) \<Rightarrow> json \<Rightarrow> bool" where
  "truthy numberToString JNull = False"
| "truthy numberToString (JBool b) = b"
| "truthy numberToString (JNumber l) = (numberToString l \<noteq> utf16 ''0'')"
| "truthy numberToString (JString s) = (s \<noteq> [])"
| "truthy numberToString (JArray xs) = True"
| "truthy numberToString (JObject kvs) = True"

fun join_with :: "nat \<Rightarrow> jsstring list \<Rightarrow> jsstring" where
  "join_with sep [] = []"
| "join_with sep [x] = x"
| "join_with sep (x # y # ys) = x @ sep # join_with sep (y # ys)"

fun toString :: "(jsstring \<Rightarrow> jsstring) \<Rightarrow> json \<Rightarrow> jsstring" where
  "toString numberToString JNull = utf16 ''null''"
| "toString numberToString (JBool b) = (if b then utf16 ''true'' else utf16 ''false'')"
| "toString numberToString (JNumber l) = numberToString l"
| "toString numberToString (JString s) = s"
| "toString numberToString (JArray xs) =
     join_with 44 (map (\<lambda>x. if x = JNull then [] else toString numberToString x) xs)"
| "toString numberToString (JObject kvs) = utf16 ''[object Object]''"

text \<open>\<open>v || ''\<close>\<close>

definition or_empty :: "(jsstring \<Rightarrow> jsstring) \<Rightarrow> json option \<Rightarrow> json" where
  "or_empty numberToString v =
     (case v of
        None \<Rightarrow> JString []
      | Some x \<Rightarrow> if truthy numberToString x then x else JString [])"

section \<open>Chat flow: \<open>sendChatMessage\<close>\<close>

datatype chat_role = User | Assistant

record ChatMessage =
  role :: chat_role
  content :: jsstring

record chat_state =
  chatMessages :: "ChatMessage list"
  chatInput :: jsstring
  chatLoading :: bool

text \<open>
  The state updates \<open>sendChatMessage\<close> issues: \<open>setChatInput\<close>, \<open>setChatLoading\<close>, and the
  three kinds of \<open>setChatMessages\<close> with an updater function: appending a message,
  appending a streamed fragment to the last message, and replacing the content of the last
  message by an error text.
\<close>

datatype chat_effect =
    SetChatInput jsstring
  | SetChatLoading bool
  | AppendMessage ChatMessage
  | AppendFragment jsstring
  | ReplaceWithError jsstring

text \<open>
  The updater of the streaming loop, and the updater of the \<open>catch\<close> block. \<open>lastIdx\<close> is
  \<open>-1\<close> for an empty transcript, where \<open>updated[lastIdx]?.role\<close> is \<open>undefined\<close>.
\<close>

definition append_fragment :: "jsstring \<Rightarrow> ChatMessage list \<Rightarrow> ChatMessage list" where
  "append_fragment text prev =
     (let updated = prev;
          lastIdx = int (length updated) - 1
      in if 0 \<le> lastIdx \<and> role (updated ! nat lastIdx) = Assistant
         then updated[nat lastIdx :=
                (updated ! nat lastIdx)\<lparr>content := content (updated ! nat lastIdx) @ text\<rparr>]
         else updated)"

definition replace_with_error :: "jsstring \<Rightarrow> ChatMessage list \<Rightarrow> ChatMessage list" where
  "replace_with_error message prev =
     (let updated = prev;
          lastIdx = int (length updated) - 1
      in if 0 \<le> lastIdx \<and> role (updated ! nat lastIdx) = Assistant
         then updated[nat lastIdx :=
                (updated ! nat lastIdx)\<lparr>content := utf16 ''Error: '' @ message\<rparr>]
         else updated)"

fun apply_chat_effect :: "chat_state \<Rightarrow> chat_effect \<Rightarrow> chat_state" where
  "apply_chat_effect s (SetChatInput v) = s\<lparr>chatInput := v\<rparr>"
| "apply_chat_effect s (SetChatLoading b) = s\<lparr>chatLoading := b\<rparr>"
| "apply_chat_effect s (AppendMessage m) = s\<lparr>chatMessages := chatMessages s @ [m]\<rparr>"
| "apply_chat_effect s (AppendFragment t) = s\<lparr>chatMessages := append_fragment t (chatMessages s)\<rparr>"
| "apply_chat_effect s (ReplaceWithError m) = s\<lparr>chatMessages := replace_with_error m (chatMessages s)\<rparr>"

text \<open>
  The body of the loop over the lines of a chunk. A \<open>SyntaxError\<close> of \<open>JSON.parse\<close> and
  the \<open>TypeError\<close> of \<open>parsed.type\<close> on \<open>null\<close> are caught by the inner \<open>try\<close>. The
  updater computes \<open>content + text\<close>, which converts \<open>text\<close> to a string; the update
  carries the converted text. The update is issued for an empty text too.
\<close>

definition line_effects :: "(jsstring \<Rightarrow> jsstring) \<Rightarrow> jsstring \<Rightarrow> chat_effect list" where
  "line_effects numberToString line =
     (if startsWith line (utf16 ''data: '') then
        let data = drop 6 line in
        if data = utf16 ''[DONE]'' then []
        else
          (case JSON_parse data of
             None \<Rightarrow> []
           | Some JNull \<Rightarrow> []
           | Some parsed \<Rightarrow>
               if getProp parsed (utf16 ''type'') = Some (JString (utf16 ''content-delta''))
               then [AppendFragment (toString numberToString (or_empty numberToString (delta_text parsed)))]
               else [])
      else [])"

definition chunk_effects :: "(jsstring \<Rightarrow> jsstring) \<Rightarrow> jsstring \<Rightarrow> chat_effect list" where
  "chunk_effects numberToString chunk = concat (map (line_effects numberToString) (split_on 10 chunk))"

text \<open>
  What is thrown: an \<open>Error\<close> with its message, or a value that is no instance of
  \<open>Error\<close>. What \<open>reader.read()\<close> gives: a chunk, which the model takes as the text
  the decoder returns for it, or a rejection. The reads of a body are a finite list, and
  its end is the read that reports \<open>done\<close>; a body that never ends is every one of its
  finite beginnings as far as the states of the exchange go.
\<close>

datatype thrown = ErrorObject jsstring | OtherValue

datatype read_result = Chunk jsstring | ReadRejected thrown

fun read_loop :: "(jsstring \<Rightarrow> jsstring) \<Rightarrow> read_result list \<Rightarrow> chat_effect list \<times> thrown option" where
  "read_loop numberToString [] = ([], None)"
| "read_loop numberToString (Chunk chunk # rs) =
     (let (es, err) = read_loop numberToString rs
      in (chunk_effects numberToString chunk @ es, err))"
| "read_loop numberToString (ReadRejected e # rs) = ([], Some e)"

text \<open>
  What the exchange meets: the configured key (\<open>None\<close> when the variable is not set), and
  what \<open>fetch\<close> does: it is rejected, or it resolves with a response that has a status and
  a body (\<open>None\<close> for a null body), the body being the results of the successive reads.
  The request, built from the transcript and the new message, has no part in what the
  function does with the response and is left out.
\<close>

datatype chat_response = FetchFailed thrown | Response nat "read_result list option"

record chat_env =
  apiKey :: "jsstring option"
  fetch_result :: chat_response

definition try_block :: "(jsstring \<Rightarrow> jsstring) \<Rightarrow> chat_env \<Rightarrow> chat_effect list \<times> thrown option" where
  "try_block numberToString env =
     (if (case apiKey env of None \<Rightarrow> True | Some k \<Rightarrow> k = [])
      then ([], Some (ErrorObject (utf16 ''VITE_COHERE_KEY not set'')))
      else
        (case fetch_result env of
           FetchFailed e \<Rightarrow> ([], Some e)
         | Response st body \<Rightarrow>
             if \<not> response_ok st
             then ([], Some (ErrorObject (utf16 ''API error: '' @ decimal st)))
             else
               (case body of
                  None \<Rightarrow> ([], Some (ErrorObject (utf16 ''No response body'')))
                | Some reads \<Rightarrow> read_loop numberToString reads)))"

definition thrown_message :: "thrown \<Rightarrow> jsstring" where
  "thrown_message err = (case err of ErrorObject m \<Rightarrow> m | OtherValue \<Rightarrow> utf16 ''Failed to connect'')"

definition catch_block :: "thrown option \<Rightarrow> chat_effect list" where
  "catch_block err = (case err of None \<Rightarrow> [] | Some e \<Rightarrow> [ReplaceWithError (thrown_message e)])"

definition chat_effects :: "(jsstring \<Rightarrow> jsstring) \<Rightarrow> chat_env \<Rightarrow> chat_state \<Rightarrow> chat_effect list" where
  "chat_effects numberToString env s =
     (if trim (chatInput s) = [] \<or> chatLoading s then []
      else
        let userMessage = trim (chatInput s);
            (streamed, err) = try_block numberToString env
        in [SetChatInput [],
            AppendMessage \<lparr>role = User, content = userMessage\<rparr>,
            SetChatLoading True,
            AppendMessage \<lparr>role = Assistant, content = []\<rparr>]
           @ streamed @ catch_block err @ [SetChatLoading False])"

definition sendChatMessage :: "(jsstring \<Rightarrow> jsstring) \<Rightarrow> chat_env \<Rightarrow> chat_state \<Rightarrow> chat_state" where
  "sendChatMessage numberToString env s = foldl apply_chat_effect s (chat_effects numberToString env s)"

text \<open>
  \<open>sendChatMessage\<close> reads \<open>chatInput\<close> and \<open>chatLoading\<close> of the state it is called in,
  and every update it issues is applied to the state in the order of issue. The state
  after the first \<open>k\<close> updates of an exchange: the first four updates are issued together,
  before the function first awaits; the exchange is in flight from then until its last
  update, which resets \<open>chatLoading\<close>.
\<close>

definition state_after :: "(jsstring \<Rightarrow> jsstring) \<Rightarrow> chat_env \<Rightarrow> chat_state \<Rightarrow> nat \<Rightarrow> chat_state" where
  "state_after numberToString env s k = foldl apply_chat_effect s (take k (chat_effects numberToString env s))"

definition states_in_flight :: "(jsstring \<Rightarrow> jsstring) \<Rightarrow> chat_env \<Rightarrow> chat_state \<Rightarrow> chat_state list" where
  "states_in_flight numberToString env s =
     map (state_after numberToString env s) [4..<length (chat_effects numberToString env s)]"

subsection \<open>The reducer as the specification words it\<close>

text \<open>
  The value at a path of keys in a parsed value; an object's property is the value of the
  last occurrence of the key. The specification's reducer takes, from each line that
  starts with \<open>data: \<close>, is not the sentinel and parses to an envelope whose
  \<open>type\<close> is \<open>content-delta\<close>, the text at the path \<open>delta.message.content.text\<close>, and
  the empty string when the path is missing. \<open>fragment_is_text\<close> says that the value
  at the path, when there is one, is a string.
\<close>

fun at_path :: "json \<Rightarrow> jsstring list \<Rightarrow> json option" where
  "at_path v [] = Some v"
| "at_path (JObject kvs) (k # ks) =
     (case map_of (rev kvs) k of None \<Rightarrow> None | Some w \<Rightarrow> at_path w ks)"
| "at_path v (k # ks) = None"

definition text_path :: "jsstring list" where
  "text_path = [utf16 ''delta'', utf16 ''message'', utf16 ''content'', utf16 ''text'']"

definition event_of_line :: "jsstring \<Rightarrow> json option" where
  "event_of_line line =
     (if startsWith line (utf16 ''data: '') \<and> drop 6 line \<noteq> utf16 ''[DONE]'' then
        (case JSON_parse (drop 6 line) of
           None \<Rightarrow> None
         | Some envelope \<Rightarrow>
             if at_path envelope [utf16 ''type''] = Some (JString (utf16 ''content-delta''))
             then Some envelope else None)
      else None)"

definition spec_fragment :: "jsstring \<Rightarrow> jsstring" where
  "spec_fragment line =
     (case event_of_line line of
        None \<Rightarrow> []
      | Some envelope \<Rightarrow>
          (case at_path envelope text_path of Some (JString t) \<Rightarrow> t | _ \<Rightarrow> []))"

definition fragment_is_text :: "jsstring \<Rightarrow> bool" where
  "fragment_is_text line =
     (case event_of_line line of
        None \<Rightarrow> True
      | Some envelope \<Rightarrow>
          (case at_path envelope text_path of
             None \<Rightarrow> True | Some (JString t) \<Rightarrow> True | Some v \<Rightarrow> False))"

text \<open>
  The same reducer with the values that are not strings taken into account. What it
  appends for an event is the value at the path, converted to a string as \<open>content + text\<close> converts it, when the value
  is truthy, and the empty string when the path is missing or the value is falsy: \<open>null\<close>,
  \<open>false\<close>, a zero, the empty string. \<open>has_string_conversion\<close> holds for the values that
  \<open>content + text\<close> can convert, which are all but an object with an own property
  \<open>toString\<close>, alone or as an element of an array: \<open>JSON.parse\<close> creates such a property
  from the key, its value is not callable, and the conversion throws a \<open>TypeError\<close> in the
  updater. \<open>fragment_converts\<close> says that the value at the path, when there is one, has a
  string conversion.
\<close>

fun has_string_conversion :: "json \<Rightarrow> bool" where
  "has_string_conversion (JObject kvs) = (map_of kvs (utf16 ''toString'') = None)"
| "has_string_conversion (JArray xs) = list_all has_string_conversion xs"
| "has_string_conversion v = True"

definition fragment_converts :: "jsstring \<Rightarrow> bool" where
  "fragment_converts line =
     (case event_of_line line of
        None \<Rightarrow> True
      | Some envelope \<Rightarrow>
          (case at_path envelope text_path of
             None \<Rightarrow> True | Some v \<Rightarrow> has_string_conversion v))"

definition appended_text :: "(jsstring \<Rightarrow> jsstring) \<Rightarrow> jsstring \<Rightarrow> jsstring" where
  "appended_text numberToString line =
     (case event_of_line line of
        None \<Rightarrow> []
      | Some envelope \<Rightarrow>
          (case at_path envelope text_path of
             None \<Rightarrow> []
           | Some v \<Rightarrow> if truthy numberToString v then toString numberToString v else []))"

text \<open>
  The state in which an exchange started in \<open>s\<close> ends once the assistant turn holds
  \<open>answer\<close>, and the state while the exchange is in flight and the assistant turn holds
  \<open>c\<close>.
\<close>

definition finished_exchange :: "chat_state \<Rightarrow> jsstring \<Rightarrow> chat_state" where
  "finished_exchange s answer =
     \<lparr>chatMessages = chatMessages s @
        [\<lparr>role = User, content = trim (chatInput s)\<rparr>, \<lparr>role = Assistant, content = answer\<rparr>],
      chatInput = [], chatLoading = False\<rparr>"

definition started :: "chat_state \<Rightarrow> jsstring \<Rightarrow> chat_state" where
  "started s c =
     \<lparr>chatMessages = chatMessages s @
        [\<lparr>role = User, content = trim (chatInput s)\<rparr>, \<lparr>role = Assistant, content = c\<rparr>],
      chatInput = [], chatLoading = True\<rparr>"

text \<open>The text an update appends to the last turn, and the text a list of updates appends.\<close>

fun fragment_text :: "chat_effect \<Rightarrow> jsstring" where
  "fragment_text (AppendFragment t) = t"
| "fragment_text e = []"

definition streamed_text :: "chat_effect list \<Rightarrow> jsstring" where
  "streamed_text es = concat (map fragment_text es)"

fun is_fragment :: "chat_effect \<Rightarrow> bool" where
  "is_fragment (AppendFragment t) = True"
| "is_fragment e = False"

subsection \<open>Example runs of the chat flow\<close>

text \<open>
  The two events of the specification's example, as lines without their newline: a
  \<open>content-delta\<close> envelope carrying \<open>Hi\<close>, and one carrying \<open> there\<close>.
\<close>

definition event_hi :: jsstring where
  "event_hi = utf16 ''data: {\"type\":\"content-delta\",\"delta\":{\"message\":{\"content\":{\"text\":\"Hi\"}}}}''"

definition event_there :: jsstring where
  "event_there = utf16 ''data: {\"type\":\"content-delta\",\"delta\":{\"message\":{\"content\":{\"text\":\" there\"}}}}''"

text \<open>Two events whose value at the path is not a string: \<open>true\<close> and \<open>false\<close>.\<close>

definition event_true :: jsstring where
  "event_true = utf16 ''data: {\"type\":\"content-delta\",\"delta\":{\"message\":{\"content\":{\"text\":true}}}}''"

definition event_false :: jsstring where
  "event_false = utf16 ''data: {\"type\":\"content-delta\",\"delta\":{\"message\":{\"content\":{\"text\":false}}}}''"

text \<open>
  A popup with one earlier exchange in its transcript and \<open> hello \<close> typed in the input
  box; an environment with a key, in which \<open>fetch\<close> resolves with the given status and a
  body that gives the given reads; a body that fails after its first chunk.
\<close>

definition example_state :: chat_state where
  "example_state =
     \<lparr>chatMessages = [\<lparr>role = User, content = utf16 ''ping''\<rparr>, \<lparr>role = Assistant, content = utf16 ''pong''\<rparr>],
      chatInput = utf16 '' hello '', chatLoading = False\<rparr>"

definition example_env :: "nat \<Rightarrow> read_result list \<Rightarrow> chat_env" where
  "example_env st reads = \<lparr>apiKey = Some (utf16 ''key''), fetch_result = Response st (Some reads)\<rparr>"

definition failing_reads :: "read_result list" where
  "failing_reads = [Chunk (event_hi @ [10]), ReadRejected (ErrorObject (utf16 ''network error''))]"

text \<open>One chunk with a line that is not JSON between the two events, and the chunk without it.\<close>

definition chunk_with_malformed_line :: jsstring where
  "chunk_with_malformed_line =
     event_hi @ [10] @ utf16 ''data: not-json'' @ [10] @ event_there @ [10]"

definition chunk_without_malformed_line :: jsstring where
  "chunk_without_malformed_line = event_hi @ [10] @ event_there @ [10]"

text \<open>
  The code units that stand for themselves inside a JSON string: all but the quote, the
  backslash and the control characters.
\<close>

definition plain :: "nat \<Rightarrow> bool" where
  "plain c = (c \<noteq> 34 \<and> c \<noteq> 92 \<and> 32 \<le> c)"

text \<open>The updates that change the last turn of the transcript and nothing else.\<close>

fun is_transcript_update :: "chat_effect \<Rightarrow> bool" where
  "is_transcript_update (AppendFragment t) = True"
| "is_transcript_update (ReplaceWithError m) = True"
| "is_transcript_update e = False"

section \<open>Facts about the latency flow\<close>

subsection \<open>The loop in closed form\<close>

lemma probe_loop_step:
  "i < count \<Longrightarrow>
   probe_loop world count i latencies trace =
     probe_loop world count (Suc i)
       (case singlePing (world i) of Some v \<Rightarrow> latencies @ [v] | None \<Rightarrow> latencies)
       (trace @ [SetAvgProgress (Suc i), AwaitSinglePing i] @
          (if i < count - 1 then [AwaitTimeout 200] else []))"
  by (subst probe_loop.simps) (simp add: Let_def)

lemma probe_loop_stop:
  "\<not> i < count \<Longrightarrow> probe_loop world count i latencies trace = (latencies, trace)"
  by (subst probe_loop.simps) simp

lemma probe_loop_eq:
  "probe_loop world count i latencies trace =
     (latencies @ List.map_filter (\<lambda>j. singlePing (world j)) [i..<count],
      trace @ concat (map (iteration_effects count) [i..<count]))"
proof (induction "count - i" arbitrary: i latencies trace)
  case 0
  then show ?case by (simp add: probe_loop_stop)
next
  case (Suc k)
  then have lt: "i < count" and k: "k = count - Suc i" by simp_all
  have upt: "[i..<count] = i # [Suc i..<count]"
    using lt by (simp add: upt_conv_Cons)
  show ?case
    unfolding probe_loop_step [OF lt] Suc.hyps(1) [OF k] upt
    by (simp add: iteration_effects_def split: option.splits)
qed

lemma testAverageConnection_with_eq:
  "testAverageConnection_with count world =
     [SetTestingAverage True, SetAvgProgress 0, SetPingResult (pending_result count)] @
     concat (map (iteration_effects count) [0..<count]) @
     [SetPingResult (if successful_samples count world \<noteq> []
                     then success_result (successful_samples count world) else error_result),
      SetTestingAverage False, SetAvgProgress 0]"
  by (simp add: testAverageConnection_with_def probe_loop_eq successful_samples_def)

lemma run_effects_append: "run_effects s (xs @ ys) = run_effects (run_effects s xs) ys"
  by (simp add: run_effects_def)

lemma average_result_eq:
  "average_result s count world =
     Some (if successful_samples count world \<noteq> []
           then success_result (successful_samples count world) else error_result)"
  unfolding average_result_def testAverageConnection_with_eq run_effects_append
  by (simp add: run_effects_def)

subsection \<open>Arithmetic of the mean\<close>

lemma foldl_plus_sum_list: "foldl (\<lambda>a b. a + b) (z::int) xs = z + sum_list xs"
  by (induction xs arbitrary: z) simp_all

lemma Math_round_round: "Math_round x = round x"
  by (simp add: Math_round_def round_def)

lemma length_map_filter_le: "length (List.map_filter f xs) \<le> length xs"
  by (induction xs) (simp_all split: option.splits)

lemma successful_samples_nonempty:
  "successful_samples count world \<noteq> [] \<longleftrightarrow> (\<exists>i<count. singlePing (world i) \<noteq> None)"
  by (auto simp: successful_samples_def List.map_filter_def filter_empty_conv)

lemma mean_bounds:
  fixes xs :: "int list"
  assumes "xs \<noteq> []"
  shows "Min (set xs) \<le> Math_round (of_int (sum_list xs) / of_nat (length xs))"
    and "Math_round (of_int (sum_list xs) / of_nat (length xs)) \<le> Max (set xs)"
proof -
  let ?n = "length xs"
  have n: "0 < ?n" using assms by simp
  have lo: "int ?n * Min (set xs) \<le> sum_list xs"
    using sum_list_mono [of xs "\<lambda>_. Min (set xs)" "\<lambda>x. x"]
    by (simp add: sum_list_triv)
  have hi: "sum_list xs \<le> int ?n * Max (set xs)"
    using sum_list_mono [of xs "\<lambda>x. x" "\<lambda>_. Max (set xs)"]
    by (simp add: sum_list_triv)
  have "(of_int (int ?n * Min (set xs)) :: rat) \<le> of_int (sum_list xs)"
    using lo by (simp only: of_int_le_iff)
  then have "(of_int (Min (set xs)) :: rat) \<le> of_int (sum_list xs) / of_nat ?n"
    using n by (simp add: pos_le_divide_eq mult.commute)
  then have "round (of_int (Min (set xs)) :: rat) \<le> round (of_int (sum_list xs) / of_nat ?n :: rat)"
    by (rule round_mono)
  then show "Min (set xs) \<le> Math_round (of_int (sum_list xs) / of_nat (length xs))"
    by (simp add: Math_round_round)
  have "(of_int (sum_list xs) :: rat) \<le> of_int (int ?n * Max (set xs))"
    using hi by (simp only: of_int_le_iff)
  then have "(of_int (sum_list xs) / of_nat ?n :: rat) \<le> of_int (Max (set xs))"
    using n by (simp add: pos_divide_le_eq mult.commute)
  then have "round (of_int (sum_list xs) / of_nat ?n :: rat) \<le> round (of_int (Max (set xs)) :: rat)"
    by (rule round_mono)
  then show "Math_round (of_int (sum_list xs) / of_nat (length xs)) \<le> Max (set xs)"
    by (simp add: Math_round_round)
qed

subsection \<open>Rounding to a double\<close>

text \<open>
  The binade of a positive number is the exponent of the power of two at or below it, so
  \<open>to_double\<close> rounds to a multiple of the gap between the doubles around its argument;
  the result is a nearest multiple, and at a tie the even one.
\<close>

lemma bit_length_upper: "n < 2 ^ bit_length n"
proof (induction n rule: bit_length.induct)
  case (1 n)
  show ?case
  proof (cases "n = 0")
    case True
    then show ?thesis by (simp add: bit_length.simps)
  next
    case False
    then have "n div 2 < 2 ^ bit_length (n div 2)"
      by (rule 1)
    then have "n < 2 * 2 ^ bit_length (n div 2)"
      by linarith
    then show ?thesis
      using False by (simp add: bit_length.simps [of n])
  qed
qed

lemma bit_length_lower: "0 < n \<Longrightarrow> 2 ^ bit_length n \<le> 2 * n"
proof (induction n rule: bit_length.induct)
  case (1 n)
  then have n: "n \<noteq> 0" by simp
  show ?case
  proof (cases "n div 2 = 0")
    case True
    then have "n = 1" using n by linarith
    then show ?thesis
      by (simp add: bit_length.simps [of "Suc 0"] bit_length.simps [of 0])
  next
    case False
    then have "2 ^ bit_length (n div 2) \<le> 2 * (n div 2)"
      using 1(1) [OF n] by simp
    then have "2 * 2 ^ bit_length (n div 2) \<le> 2 * n"
      by linarith
    then show ?thesis
      using n by (simp add: bit_length.simps [of n])
  qed
qed

lemma bit_length_pos: "0 < n \<Longrightarrow> 0 < bit_length n"
  by (simp add: bit_length.simps [of n])

lemma binade_bounds:
  assumes "0 < a"
  shows "2 powi binade a \<le> a \<and> a < 2 powi (binade a + 1)"
proof (cases "1 \<le> a")
  case True
  define n where "n = nat \<lfloor>a\<rfloor>"
  define k where "k = bit_length n"
  have n: "0 < n"
    using True by (simp add: n_def)
  have fl: "of_nat n \<le> a" "a < of_nat n + 1"
    using True by (simp_all add: n_def) linarith+
  have k: "0 < k"
    using n by (simp add: k_def bit_length_pos)
  have b: "binade a = int k - 1"
    using True by (simp add: binade_def k_def n_def)
  have "(2::nat) ^ k \<le> 2 * n"
    unfolding k_def using n by (rule bit_length_lower)
  then have "(2::nat) ^ (k - 1) \<le> n"
    using k by (cases k) simp_all
  then have "(2::rat) ^ (k - 1) \<le> of_nat n"
    using of_nat_mono [of "2 ^ (k - 1)" n, where 'a = rat] by simp
  then have low: "(2::rat) ^ (k - 1) \<le> a"
    using fl by linarith
  have "n + 1 \<le> 2 ^ k"
    using bit_length_upper [of n] by (simp add: k_def)
  then have "of_nat n + 1 \<le> (2::rat) ^ k"
    using of_nat_mono [of "n + 1" "2 ^ k", where 'a = rat] by simp
  then have up: "a < (2::rat) ^ k"
    using fl by linarith
  have p1: "(2::rat) powi (int k - 1) = 2 ^ (k - 1)"
    using k by (simp add: power_int_def nat_diff_distrib')
  have p2: "(2::rat) powi (int k - 1 + 1) = 2 ^ k"
    by (simp add: power_int_def)
  show ?thesis
    using low up by (simp only: b p1 p2)
next
  case False
  define m where "m = nat (\<lceil>1 / a\<rceil> - 1)"
  define k where "k = bit_length m"
  have inv: "1 < 1 / a"
    using False assms by simp
  then have c: "2 \<le> \<lceil>1 / a\<rceil>"
    by linarith
  have m: "0 < m"
    using c by (simp add: m_def)
  have ce: "of_nat m < 1 / a" "1 / a \<le> of_nat m + 1"
    using c by (simp_all add: m_def) linarith+
  have k: "0 < k"
    using m by (simp add: k_def bit_length_pos)
  have b: "binade a = - int k"
    using False by (simp add: binade_def k_def m_def)
  have "m + 1 \<le> 2 ^ k"
    using bit_length_upper [of m] by (simp add: k_def)
  then have "of_nat m + 1 \<le> (2::rat) ^ k"
    using of_nat_mono [of "m + 1" "2 ^ k", where 'a = rat] by simp
  then have "1 / a \<le> (2::rat) ^ k"
    using ce by linarith
  then have low: "1 / (2::rat) ^ k \<le> a"
    using assms by (simp add: field_simps)
  have "(2::nat) ^ k \<le> 2 * m"
    unfolding k_def using m by (rule bit_length_lower)
  then have "(2::rat) ^ k \<le> 2 * of_nat m"
    using of_nat_mono [of "2 ^ k" "2 * m", where 'a = rat] by simp
  then have "(2::rat) ^ k < 2 * (1 / a)"
    using ce by linarith
  then have up: "a < 2 / (2::rat) ^ k"
    using assms by (simp add: field_simps)
  have p1: "(2::rat) powi (- int k) = 1 / 2 ^ k"
    by (simp add: power_int_def field_simps)
  have p2: "(2::rat) powi (- int k + 1) = 2 / 2 ^ k"
    using k by (cases k) (simp_all add: power_int_def field_simps nat_add_distrib)
  show ?thesis
    using low up by (simp only: b p1 p2)
qed

lemmas double_eval =
  double_minus_def to_double_def binade_def round_half_even_def bit_length.simps Let_def

lemma round_half_even_nearest: "\<bar>of_int (round_half_even y) - y\<bar> \<le> 1 / 2"
proof -
  have "of_int \<lfloor>y\<rfloor> \<le> y" and "y < of_int \<lfloor>y\<rfloor> + 1"
    by linarith+
  then show ?thesis
    unfolding round_half_even_def Let_def by (simp add: abs_le_iff)
qed

lemma round_half_even_of_int: "round_half_even (of_int k) = k"
  by (simp add: round_half_even_def Let_def)

lemma round_half_even_tie:
  "round_half_even (of_int k + 1 / 2) = (if even k then k else k + 1)"
proof -
  have "\<lfloor>of_int k + 1 / 2 :: rat\<rfloor> = k"
    by (rule floor_unique) simp_all
  then show ?thesis
    by (simp add: round_half_even_def Let_def)
qed

lemma round_half_even_nonneg: "0 \<le> y \<Longrightarrow> 0 \<le> round_half_even y"
  by (simp add: round_half_even_def Let_def)

lemma to_double_nonneg: "0 \<le> x \<Longrightarrow> 0 \<le> to_double x"
  by (simp add: to_double_def Let_def round_half_even_nonneg)

lemma double_minus_nonneg: "b \<le> a \<Longrightarrow> 0 \<le> double_minus a b"
  by (simp add: double_minus_def to_double_nonneg)

lemma to_double_nearest:
  "x \<noteq> 0 \<Longrightarrow> \<bar>to_double x - x\<bar> \<le> 2 powi (max (binade \<bar>x\<bar>) (- 1022) - 53)"
proof -
  assume x: "x \<noteq> 0"
  define e where "e = max (binade \<bar>x\<bar>) (- 1022)"
  define q :: rat where "q = 2 powi (e - 52)"
  have q: "0 < q"
    by (simp add: q_def)
  have "to_double x - x = q * (of_int (round_half_even (x / q)) - x / q)"
    using x q by (simp add: to_double_def Let_def e_def q_def algebra_simps)
  then have "\<bar>to_double x - x\<bar> = q * \<bar>of_int (round_half_even (x / q)) - x / q\<bar>"
    using q by (simp add: abs_mult)
  also have "\<dots> \<le> q * (1 / 2)"
    using q round_half_even_nearest [of "x / q"] by (intro mult_left_mono) simp_all
  also have "\<dots> = 2 powi (e - 53)"
    by (simp add: q_def power_int_diff)
  finally show ?thesis
    by (simp add: e_def)
qed

lemma to_double_tenth: "to_double (1 / 10) = 3602879701896397 / 36028797018963968"
proof -
  have "\<lfloor>36028797018963968 / 5 :: rat\<rfloor> = 7205759403792793"
    by (rule floor_unique) simp_all
  then show ?thesis
    by (simp add: double_eval)
qed

lemma to_double_one: "to_double 1 = 1"
  by (simp add: double_eval)

lemma to_double_tie_down: "to_double (2 ^ 53 + 1) = 2 ^ 53"
proof -
  have "\<lfloor>9007199254740993 / 2 :: rat\<rfloor> = 4503599627370496"
    by (rule floor_unique) simp_all
  then show ?thesis
    by (simp add: double_eval)
qed

lemma to_double_tie_up: "to_double (2 ^ 53 + 3) = 2 ^ 53 + 4"
proof -
  have "\<lfloor>9007199254740995 / 2 :: rat\<rfloor> = 4503599627370497"
    by (rule floor_unique) simp_all
  then show ?thesis
    by (simp add: double_eval)
qed

lemma double_minus_samples:
  "double_minus (2021 / 2) 1000 = 21 / 2"
  "double_minus (2061 / 2) 1000 = 61 / 2"
  "double_minus (2101 / 2) 1000 = 101 / 2"
proof -
  have "\<lfloor>21 / 2 :: rat\<rfloor> = 10" and "\<lfloor>61 / 2 :: rat\<rfloor> = 30" and "\<lfloor>101 / 2 :: rat\<rfloor> = 50"
    by (rule floor_unique; simp)+
  then show "double_minus (2021 / 2) 1000 = 21 / 2"
    and "double_minus (2061 / 2) 1000 = 61 / 2"
    and "double_minus (2101 / 2) 1000 = 101 / 2"
    by (simp_all add: double_eval)
qed

lemma inexact_readings:
  "is_double (7050948166601933 / 70368744177664)"
  "is_double (4023332948357939 / 17592186044416)"
proof -
  have "\<lfloor>7050948166601933 / 70368744177664 :: rat\<rfloor> = 100"
    and "\<lfloor>4023332948357939 / 17592186044416 :: rat\<rfloor> = 228"
    by (rule floor_unique; simp)+
  then show "is_double (7050948166601933 / 70368744177664)"
    and "is_double (4023332948357939 / 17592186044416)"
    by (simp_all add: is_double_def double_eval)
qed

lemma inexact_difference:
  "4023332948357939 / 17592186044416 - 7050948166601933 / 70368744177664
     = (257 / 2 - 1 / 2 ^ 46 :: rat)"
  "double_minus (4023332948357939 / 17592186044416) (7050948166601933 / 70368744177664) = 257 / 2"
proof -
  have "\<lfloor>9042383626829823 / 70368744177664 :: rat\<rfloor> = 128"
    and "\<lfloor>9042383626829823 / 2 :: rat\<rfloor> = 4521191813414911"
    by (rule floor_unique; simp)+
  then show "double_minus (4023332948357939 / 17592186044416) (7050948166601933 / 70368744177664)
      = 257 / 2"
    by (simp add: double_eval)
  show "4023332948357939 / 17592186044416 - 7050948166601933 / 70368744177664
     = (257 / 2 - 1 / 2 ^ 46 :: rat)"
    by simp
qed

lemma sample_world_samples: "successful_samples 5 sample_world = [11, 31, 51]"
  by (simp add: successful_samples_def upt_rec [of _ "numeral _"] sample_world_def singlePing_def
      response_ok_def Math_round_def double_minus_samples)

subsection \<open>The trace up to a probe\<close>

lemma filter_iteration_effects:
  "filter progress_or_probe (iteration_effects count j) = [SetAvgProgress (j + 1), AwaitSinglePing j]"
  by (simp add: iteration_effects_def)

lemma filter_iterations:
  "filter progress_or_probe (concat (map (iteration_effects count) js)) =
     concat (map (\<lambda>i. [SetAvgProgress (i + 1), AwaitSinglePing i]) js)"
  by (induction js) (simp_all add: filter_iteration_effects)

lemma probe_not_in_earlier_iterations:
  "e \<in> set (concat (map (iteration_effects count) [0..<i])) \<Longrightarrow> e \<noteq> AwaitSinglePing i"
  by (auto simp: iteration_effects_def split: if_splits)

lemma takeWhile_until:
  assumes "\<And>x. x \<in> set xs \<Longrightarrow> x \<noteq> a"
  shows "takeWhile (\<lambda>e. e \<noteq> a) (xs @ a # ys) = xs"
  using assms by (induction xs) simp_all

lemma trace_until_probe:
  assumes "i < count"
  shows "takeWhile (\<lambda>e. e \<noteq> AwaitSinglePing i) (testAverageConnection_with count world) =
           [SetTestingAverage True, SetAvgProgress 0, SetPingResult (pending_result count)] @
           concat (map (iteration_effects count) [0..<i]) @ [SetAvgProgress (i + 1)]"
proof -
  let ?pre = "[SetTestingAverage True, SetAvgProgress 0, SetPingResult (pending_result count)] @
           concat (map (iteration_effects count) [0..<i]) @ [SetAvgProgress (i + 1)]"
  have split: "[0..<count] = [0..<i] @ i # [Suc i..<count]"
    using assms upt_add_eq_append [of 0 i "count - i"] by (simp add: upt_conv_Cons)
  obtain rest where "testAverageConnection_with count world = ?pre @ AwaitSinglePing i # rest"
    unfolding testAverageConnection_with_eq split
    by (simp add: iteration_effects_def)
  moreover have "\<And>x. x \<in> set ?pre \<Longrightarrow> x \<noteq> AwaitSinglePing i"
    using probe_not_in_earlier_iterations [of _ count i] by auto
  ultimately show ?thesis
    using takeWhile_until [of ?pre "AwaitSinglePing i" rest] by simp
qed

lemma other_iterations:
  assumes "e \<in> set (concat (map (iteration_effects count) js))" and "i \<notin> set js"
  shows "e \<noteq> AwaitSinglePing i \<and> e \<noteq> SetAvgProgress (i + 1)"
  using assms by (auto simp: iteration_effects_def split: if_splits)

lemma trace_around_probe:
  assumes "i < count"
  shows "testAverageConnection_with count world =
           ([SetTestingAverage True, SetAvgProgress 0, SetPingResult (pending_result count)] @
            concat (map (iteration_effects count) [0..<i])) @
           [SetAvgProgress (i + 1), AwaitSinglePing i] @
           ((if i < count - 1 then [AwaitTimeout 200] else []) @
            concat (map (iteration_effects count) [Suc i..<count]) @
            [SetPingResult (if successful_samples count world \<noteq> []
                            then success_result (successful_samples count world) else error_result),
             SetTestingAverage False, SetAvgProgress 0])"
proof -
  have split: "[0..<count] = [0..<i] @ i # [Suc i..<count]"
    using assms upt_add_eq_append [of 0 i "count - i"] by (simp add: upt_conv_Cons)
  show ?thesis
    unfolding testAverageConnection_with_eq split
    by (simp add: iteration_effects_def)
qed

lemma probe_adjacent:
  assumes "i < count"
  shows "\<exists>before after.
           testAverageConnection_with count world =
             before @ [SetAvgProgress (i + 1), AwaitSinglePing i] @ after \<and>
           SetAvgProgress (i + 1) \<notin> set before \<and> AwaitSinglePing i \<notin> set before \<and>
           SetAvgProgress (i + 1) \<notin> set after \<and> AwaitSinglePing i \<notin> set after"
proof -
  let ?before = "[SetTestingAverage True, SetAvgProgress 0, SetPingResult (pending_result count)] @
            concat (map (iteration_effects count) [0..<i])"
  let ?after = "(if i < count - 1 then [AwaitTimeout 200] else []) @
            concat (map (iteration_effects count) [Suc i..<count]) @
            [SetPingResult (if successful_samples count world \<noteq> []
                            then success_result (successful_samples count world) else error_result),
             SetTestingAverage False, SetAvgProgress 0]"
  have "SetAvgProgress (i + 1) \<notin> set ?before" and "AwaitSinglePing i \<notin> set ?before"
    using other_iterations [of _ count "[0..<i]" i] by auto
  moreover have "SetAvgProgress (i + 1) \<notin> set ?after" and "AwaitSinglePing i \<notin> set ?after"
    using other_iterations [of _ count "[Suc i..<count]" i] by auto
  ultimately show ?thesis
    using trace_around_probe [OF assms, of world] by blast
qed

lemma not_after_probe:
  assumes "i < count"
  shows "\<not> fires_after_probe (testAverageConnection_with count world) i"
proof -
  obtain before after where
    tr: "testAverageConnection_with count world =
           before @ [SetAvgProgress (i + 1), AwaitSinglePing i] @ after"
    and b: "AwaitSinglePing i \<notin> set before" and a: "SetAvgProgress (i + 1) \<notin> set after"
    using probe_adjacent [OF assms, of world] by blast
  have "dropWhile (\<lambda>e. e \<noteq> AwaitSinglePing i) (testAverageConnection_with count world)
          = AwaitSinglePing i # after"
    unfolding tr using b by (simp add: dropWhile_append3 dropWhile_append)
  then show ?thesis
    using a by (simp add: fires_after_probe_def)
qed

subsection \<open>Properties of the latency flow\<close>

text \<open>
  Claim C1. Whenever at least one of the \<open>count\<close> probes of the averaged test succeeds, the
  result is a success whose sample list holds the successful samples in order, whose
  \<open>testCount\<close> is their number (positive, at most \<open>count\<close>), and whose \<open>latency\<close> is the
  sum of the samples divided by their number, rounded to the nearest integer; this mean lies
  between the smallest and the largest sample. The source runs the loop with
  \<open>TEST_COUNT = 5\<close>; the statement holds for every loop bound.
\<close>

theorem average_of_successful_probes:
  assumes "\<exists>i<count. singlePing (world i) \<noteq> None"
  shows "\<exists>r samples mean.
           average_result s count world = Some r \<and>
           samples = successful_samples count world \<and>
           status r = Success \<and>
           allLatencies r = Some samples \<and>
           testCount r = Some (length samples) \<and>
           0 < length samples \<and> length samples \<le> count \<and>
           latency r = Some mean \<and>
           mean = round (of_int (sum_list samples) / of_nat (length samples) :: rat) \<and>
           Min (set samples) \<le> mean \<and> mean \<le> Max (set samples)"
proof -
  let ?xs = "successful_samples count world"
  have ne: "?xs \<noteq> []"
    using assms by (simp add: successful_samples_nonempty)
  have len: "length ?xs \<le> count"
    using length_map_filter_le [of "\<lambda>i. singlePing (world i)" "[0..<count]"]
    by (simp add: successful_samples_def)
  have res: "average_result s count world = Some (success_result ?xs)"
    using ne by (simp add: average_result_eq)
  have mean: "latency (success_result ?xs)
                = Some (Math_round (of_int (sum_list ?xs) / of_nat (length ?xs)))"
    by (simp add: success_result_def foldl_plus_sum_list)
  show ?thesis
    using ne len res mean mean_bounds [OF ne]
    by (simp add: success_result_def Math_round_round)
qed

text \<open>
  C1 at the run \<open>sample_world\<close> with five probes: three succeed with 11, 31 and 51 ms, and
  the mean is 31.
\<close>

theorem average_of_successful_probes_witness:
  "(\<exists>i<5. singlePing (sample_world i) \<noteq> None) \<and>
   (\<exists>r. average_result initial_vpn_state 5 sample_world = Some r \<and>
        status r = Success \<and> allLatencies r = Some [11, 31, 51] \<and>
        testCount r = Some 3 \<and> latency r = Some 31)"
proof -
  have h: "\<exists>i<5. singlePing (sample_world i) \<noteq> None"
    by (rule exI [of _ 0]) (simp add: sample_world_def singlePing_def response_ok_def)
  have "round (93 / 3 :: rat) = 31"
    by (rule round_unique) simp_all
  with average_of_successful_probes [OF h, of initial_vpn_state] h show ?thesis
    by (auto simp: sample_world_samples)
qed

text \<open>
  Claim C7. When every one of the \<open>count\<close> probes fails, the result has status \<open>Error\<close>
  and none of its numeric fields (\<open>latency\<close>, \<open>testCount\<close>, \<open>allLatencies\<close>) is set,
  whatever \<open>count\<close> is.
\<close>

theorem all_probes_fail_error:
  assumes "\<forall>i<count. singlePing (world i) = None"
  shows "\<exists>r. average_result s count world = Some r \<and> status r = Error \<and>
            latency r = None \<and> testCount r = None \<and> allLatencies r = None"
proof -
  have "successful_samples count world = []"
    using assms successful_samples_nonempty [of count world] by auto
  then show ?thesis
    by (simp add: average_result_eq error_result_def)
qed

text \<open>C7 at the run \<open>failing_world\<close> with five probes.\<close>

theorem all_probes_fail_error_witness:
  "map (\<lambda>i. singlePing (failing_world i)) [0..<5] = [None, None, None, None, None] \<and>
   (\<exists>r. average_result initial_vpn_state 5 failing_world = Some r \<and> status r = Error \<and>
            latency r = None \<and> testCount r = None \<and> allLatencies r = None)"
proof -
  have h: "\<forall>i<5. singlePing (failing_world i) = None"
    by (simp add: failing_world_def singlePing_def response_ok_def)
  have m: "map (\<lambda>i. singlePing (failing_world i)) [0..<5] = [None, None, None, None, None]"
    by (simp add: h upt_rec [of _ "numeral _"])
  from all_probes_fail_error [OF h] m show ?thesis by blast
qed

text \<open>
  Claim C8, as amended. \<open>setAvgProgress\<close> is called once per probe with the 1-based index
  of the probe, and the call comes immediately before the probe starts, not after it
  completes: in the run of \<open>testAverageConnection\<close>, whose effects are all listed, the call
  \<open>setAvgProgress (i + 1)\<close> and the start of probe \<open>i\<close> (counted from 0) are neighbours,
  with no effect between them, and neither occurs anywhere else in the run; the pause of
  200 ms follows the probe. \<open>avgProgress\<close> is also set to 0 before the first probe and
  again after the last. So when probe \<open>i\<close> has completed, \<open>avgProgress\<close> is \<open>i + 1\<close>, set
  before that probe began, and no call \<open>setAvgProgress (i + 1)\<close> follows.
\<close>

theorem progress_set_before_each_probe:
  "testAverageConnection_with count world =
     [SetTestingAverage True, SetAvgProgress 0, SetPingResult (pending_result count)] @
     concat (map (\<lambda>i. [SetAvgProgress (i + 1), AwaitSinglePing i] @
                        (if i < count - 1 then [AwaitTimeout 200] else [])) [0..<count]) @
     [SetPingResult (if successful_samples count world \<noteq> []
                     then success_result (successful_samples count world) else error_result),
      SetTestingAverage False, SetAvgProgress 0]
   \<and> (\<forall>i<count.
        (\<exists>before after.
           testAverageConnection_with count world =
             before @ [SetAvgProgress (i + 1), AwaitSinglePing i] @ after \<and>
           SetAvgProgress (i + 1) \<notin> set before \<and> AwaitSinglePing i \<notin> set before \<and>
           SetAvgProgress (i + 1) \<notin> set after \<and> AwaitSinglePing i \<notin> set after)
        \<and> \<not> fires_after_probe (testAverageConnection_with count world) i
        \<and> avgProgress (run_effects s
            (takeWhile (\<lambda>e. e \<noteq> AwaitSinglePing i) (testAverageConnection_with count world)
               @ [AwaitSinglePing i])) = i + 1)
   \<and> filter progress_or_probe (testAverageConnection_with count world) =
       SetAvgProgress 0 #
       concat (map (\<lambda>i. [SetAvgProgress (i + 1), AwaitSinglePing i]) [0..<count]) @
       [SetAvgProgress 0]"
proof (intro conjI allI impI)
  have "iteration_effects count = (\<lambda>i. [SetAvgProgress (i + 1), AwaitSinglePing i] @
                        (if i < count - 1 then [AwaitTimeout 200] else []))"
    by (rule ext) (simp add: iteration_effects_def)
  then show "testAverageConnection_with count world =
     [SetTestingAverage True, SetAvgProgress 0, SetPingResult (pending_result count)] @
     concat (map (\<lambda>i. [SetAvgProgress (i + 1), AwaitSinglePing i] @
                        (if i < count - 1 then [AwaitTimeout 200] else [])) [0..<count]) @
     [SetPingResult (if successful_samples count world \<noteq> []
                     then success_result (successful_samples count world) else error_result),
      SetTestingAverage False, SetAvgProgress 0]"
    using testAverageConnection_with_eq [of count world] by (simp only:)
next
  show "filter progress_or_probe (testAverageConnection_with count world) =
     SetAvgProgress 0 #
     concat (map (\<lambda>i. [SetAvgProgress (i + 1), AwaitSinglePing i]) [0..<count]) @
     [SetAvgProgress 0]"
    unfolding testAverageConnection_with_eq
    by (simp add: filter_iterations)
next
  fix i assume i: "i < count"
  show "\<exists>before after.
           testAverageConnection_with count world =
             before @ [SetAvgProgress (i + 1), AwaitSinglePing i] @ after \<and>
           SetAvgProgress (i + 1) \<notin> set before \<and> AwaitSinglePing i \<notin> set before \<and>
           SetAvgProgress (i + 1) \<notin> set after \<and> AwaitSinglePing i \<notin> set after"
    by (rule probe_adjacent [OF i])
  show "\<not> fires_after_probe (testAverageConnection_with count world) i"
    by (rule not_after_probe [OF i])
  show "avgProgress (run_effects s
          (takeWhile (\<lambda>e. e \<noteq> AwaitSinglePing i) (testAverageConnection_with count world)
             @ [AwaitSinglePing i])) = i + 1"
    unfolding trace_until_probe [OF i]
    by (simp add: run_effects_def)
qed

text \<open>C8 as amended, at the source's five probes and at probe 2 of them.\<close>

theorem progress_set_before_each_probe_witness:
  "testAverageConnection sample_world =
     [SetTestingAverage True, SetAvgProgress 0, SetPingResult (pending_result 5),
      SetAvgProgress 1, AwaitSinglePing 0, AwaitTimeout 200,
      SetAvgProgress 2, AwaitSinglePing 1, AwaitTimeout 200,
      SetAvgProgress 3, AwaitSinglePing 2, AwaitTimeout 200,
      SetAvgProgress 4, AwaitSinglePing 3, AwaitTimeout 200,
      SetAvgProgress 5, AwaitSinglePing 4,
      SetPingResult (success_result [11, 31, 51]), SetTestingAverage False, SetAvgProgress 0]
   \<and> (2::nat) < 5
   \<and> (\<exists>before after.
         testAverageConnection sample_world =
           before @ [SetAvgProgress 3, AwaitSinglePing 2] @ after \<and>
         SetAvgProgress 3 \<notin> set before \<and> AwaitSinglePing 2 \<notin> set before \<and>
         SetAvgProgress 3 \<notin> set after \<and> AwaitSinglePing 2 \<notin> set after)
   \<and> \<not> fires_after_probe (testAverageConnection sample_world) 2
   \<and> avgProgress (run_effects initial_vpn_state
          (takeWhile (\<lambda>e. e \<noteq> AwaitSinglePing 2) (testAverageConnection sample_world)
             @ [AwaitSinglePing 2])) = 3
   \<and> filter progress_or_probe (testAverageConnection sample_world) =
     [SetAvgProgress 0,
      SetAvgProgress 1, AwaitSinglePing 0, SetAvgProgress 2, AwaitSinglePing 1,
      SetAvgProgress 3, AwaitSinglePing 2, SetAvgProgress 4, AwaitSinglePing 3,
      SetAvgProgress 5, AwaitSinglePing 4,
      SetAvgProgress 0]"
proof -
  note t = progress_set_before_each_probe [of 5 sample_world initial_vpn_state,
      folded testAverageConnection_def [unfolded TEST_COUNT_def]]
  have two: "(2::nat) < 5"
    by simp
  have three: "(2::nat) + 1 = 3"
    by simp
  note at_two = t [THEN conjunct2, THEN conjunct1, rule_format, OF two, unfolded three]
  have trace: "testAverageConnection sample_world =
     [SetTestingAverage True, SetAvgProgress 0, SetPingResult (pending_result 5),
      SetAvgProgress 1, AwaitSinglePing 0, AwaitTimeout 200,
      SetAvgProgress 2, AwaitSinglePing 1, AwaitTimeout 200,
      SetAvgProgress 3, AwaitSinglePing 2, AwaitTimeout 200,
      SetAvgProgress 4, AwaitSinglePing 3, AwaitTimeout 200,
      SetAvgProgress 5, AwaitSinglePing 4,
      SetPingResult (success_result [11, 31, 51]), SetTestingAverage False, SetAvgProgress 0]"
    using t [THEN conjunct1]
    by (simp add: upt_rec [of _ "numeral _"] sample_world_samples)
  have filtered: "filter progress_or_probe (testAverageConnection sample_world) =
     [SetAvgProgress 0,
      SetAvgProgress 1, AwaitSinglePing 0, SetAvgProgress 2, AwaitSinglePing 1,
      SetAvgProgress 3, AwaitSinglePing 2, SetAvgProgress 4, AwaitSinglePing 3,
      SetAvgProgress 5, AwaitSinglePing 4,
      SetAvgProgress 0]"
    using t [THEN conjunct2, THEN conjunct2]
    by (simp add: upt_rec [of _ "numeral _"])
  show ?thesis
    using trace two at_two filtered by blast
qed

text \<open>
  Claim C8 as stated fails: in a run of \<open>testAverageConnection\<close> no call
  \<open>setAvgProgress 1\<close> follows the completion of the first probe. The call stands before the
  probe, as the first six effects of the run show.
\<close>

theorem progress_after_probe_counterexample:
  "\<not> fires_after_probe (testAverageConnection sample_world) 0 \<and>
   take 6 (testAverageConnection sample_world) =
     [SetTestingAverage True, SetAvgProgress 0, SetPingResult (pending_result 5),
      SetAvgProgress 1, AwaitSinglePing 0, AwaitTimeout 200]"
  by (simp add: testAverageConnection_def TEST_COUNT_def testAverageConnection_with_eq
      fires_after_probe_def iteration_effects_def upt_rec [of _ "numeral _"])

text \<open>
  Claim C2, as amended. \<open>singlePing\<close> returns the elapsed time exactly when \<open>fetch\<close> resolves
  with a response whose status is in the range 200 to 299 (\<open>response.ok\<close>); it returns null
  when the response has any other status, a 3xx status included, and when \<open>fetch\<close> is
  rejected. The elapsed time is the difference of the two clock readings as the subtraction
  of doubles gives it, rounded to an integer number of milliseconds by \<open>Math.round\<close>; it is
  not negative when the second reading is not below the first.
\<close>

theorem singlePing_elapsed_or_absent:
  "(fetched io = FetchResolved endTime st \<and> 200 \<le> st \<and> st \<le> 299 \<longrightarrow>
      singlePing io = Some (round (double_minus endTime (startTime io))) \<and>
      (startTime io \<le> endTime \<longrightarrow> 0 \<le> round (double_minus endTime (startTime io)))) \<and>
   (fetched io = FetchResolved endTime st \<and> \<not> (200 \<le> st \<and> st \<le> 299) \<longrightarrow>
      singlePing io = None) \<and>
   (fetched io = FetchRejected \<longrightarrow> singlePing io = None)"
proof -
  have "0 \<le> round (double_minus endTime (startTime io))" if "startTime io \<le> endTime"
    using double_minus_nonneg [OF that] by (simp add: round_def)
  then show ?thesis
    by (simp add: singlePing_def response_ok_def Math_round_round)
qed

text \<open>
  C2 as amended, at three probes of \<open>sample_world\<close>: status 200, status 503, rejected. And at
  the probe with the readings 100.2 and 228.7: the exact difference of the two doubles is
  \<open>128.5 - 2 ^ (- 46)\<close>, which rounds to 128, but their difference as doubles is 128.5, and
  \<open>singlePing\<close> returns 129.
\<close>

theorem singlePing_elapsed_or_absent_witness:
  "fetched (sample_world 2) = FetchResolved (2061 / 2) 200 \<and> (200::nat) \<le> 200 \<and> (200::nat) \<le> 299 \<and>
   startTime (sample_world 2) \<le> 2061 / 2 \<and>
   singlePing (sample_world 2) = Some 31 \<and>
   fetched (sample_world 3) = FetchResolved 1030 503 \<and> \<not> ((200::nat) \<le> 503 \<and> (503::nat) \<le> 299) \<and>
   singlePing (sample_world 3) = None \<and>
   fetched (sample_world 1) = FetchRejected \<and> singlePing (sample_world 1) = None \<and>
   fetched inexact_probe = FetchResolved (4023332948357939 / 17592186044416) 200 \<and>
   startTime inexact_probe = 7050948166601933 / 70368744177664 \<and>
   is_double (startTime inexact_probe) \<and> is_double (4023332948357939 / 17592186044416) \<and>
   round (4023332948357939 / 17592186044416 - startTime inexact_probe) = 128 \<and>
   singlePing inexact_probe = Some 129"
proof -
  have r: "round (61 / 2 :: rat) = 31"
    by (rule round_unique) simp_all
  have r': "round (257 / 2 :: rat) = 129"
    by (rule round_unique) simp_all
  have x: "round (257 / 2 - 1 / 2 ^ 46 :: rat) = 128"
    by (rule round_unique) simp_all
  have f2: "fetched (sample_world 2) = FetchResolved (2061 / 2) 200"
    and f3: "fetched (sample_world 3) = FetchResolved 1030 503"
    and f1: "fetched (sample_world 1) = FetchRejected"
    and s: "startTime (sample_world 2) = 1000"
    by (simp_all add: sample_world_def)
  have fi: "fetched inexact_probe = FetchResolved (4023332948357939 / 17592186044416) 200"
    and si: "startTime inexact_probe = 7050948166601933 / 70368744177664"
    by (simp_all add: inexact_probe_def)
  have two: "singlePing (sample_world 2) = Some 31"
    using singlePing_elapsed_or_absent [of "sample_world 2" "2061 / 2" 200] f2 s r
    by (simp add: double_minus_samples)
  have three: "singlePing (sample_world 3) = None"
    using singlePing_elapsed_or_absent [of "sample_world 3" 1030 503] f3 by simp
  have one: "singlePing (sample_world 1) = None"
    using singlePing_elapsed_or_absent [of "sample_world 1"] f1 by simp
  have inexact: "singlePing inexact_probe = Some 129"
    using singlePing_elapsed_or_absent
      [of inexact_probe "4023332948357939 / 17592186044416" 200] fi
    by (simp only: si inexact_difference r') simp
  have exact: "round (4023332948357939 / 17592186044416 - startTime inexact_probe) = 128"
    by (simp only: si inexact_difference x)
  have d: "is_double (startTime inexact_probe)"
    by (simp only: si inexact_readings)
  have le: "(200::nat) \<le> 200" "(200::nat) \<le> 299" "\<not> ((200::nat) \<le> 503 \<and> (503::nat) \<le> 299)"
    "startTime (sample_world 2) \<le> 2061 / 2"
    by (simp_all add: s)
  show ?thesis
    using two three one inexact exact f1 f2 f3 fi si d le inexact_readings(2) by blast
qed

text \<open>
  Claim C2 as stated fails for a 3xx status: a response with status 300 that arrives 42 ms
  after the start is not \<open>ok\<close>, and \<open>singlePing\<close> returns null instead of 42.
\<close>

theorem singlePing_redirect_status_counterexample:
  "response_ok 300 = False \<and>
   singlePing \<lparr>startTime = 1000, fetched = FetchResolved 1042 300\<rparr> = None"
  by (simp add: singlePing_def response_ok_def)

section \<open>Facts about the chat flow\<close>

subsection \<open>Lines\<close>

lemma split_on_nonempty: "split_on sep xs \<noteq> []"
  by (induction xs) (simp_all split: list.splits)

lemma split_on_append: "split_on sep (a @ sep # b) = split_on sep a @ split_on sep b"
proof (induction a)
  case Nil
  show ?case by simp
next
  case (Cons c a)
  obtain l ls where a: "split_on sep a = l # ls"
    using split_on_nonempty [of sep a] by (cases "split_on sep a") auto
  show ?case
    using Cons a by simp
qed

lemma split_on_no_sep: "sep \<notin> set xs \<Longrightarrow> split_on sep xs = [xs]"
  by (induction xs) simp_all

lemma startsWith_Nil: "\<not> startsWith [] (utf16 ''data: '')"
  by (simp add: startsWith_def utf16_def)

lemma line_effects_Nil: "line_effects n [] = []"
  by (simp add: line_effects_def startsWith_Nil)

lemma chunk_effects_Nil: "chunk_effects n [] = []"
  by (simp add: chunk_effects_def line_effects_Nil)

lemma chunk_effects_append:
  "chunk_effects n (a @ 10 # b) = chunk_effects n a @ chunk_effects n b"
  by (simp add: chunk_effects_def split_on_append)

lemma chunk_effects_line:
  "10 \<notin> set line \<Longrightarrow> chunk_effects n line = line_effects n line"
  by (simp add: chunk_effects_def split_on_no_sep)

lemma ends_with_newline:
  "c \<noteq> [] \<Longrightarrow> last c = 10 \<Longrightarrow> c = butlast c @ [10]"
  by (metis append_butlast_last_id)

lemma chunk_effects_whole_lines:
  assumes "\<forall>c\<in>set chunks. c \<noteq> [] \<and> last c = 10"
  shows "chunk_effects n (concat chunks @ rest) =
           concat (map (chunk_effects n) chunks) @ chunk_effects n rest"
  using assms
proof (induction chunks)
  case Nil
  show ?case by simp
next
  case (Cons c chunks)
  then have c: "c = butlast c @ [10]"
    by (simp add: ends_with_newline)
  have "chunk_effects n (concat (c # chunks) @ rest) =
          chunk_effects n (butlast c @ 10 # (concat chunks @ rest))"
    by (subst c) simp
  also have "\<dots> = chunk_effects n (butlast c) @ chunk_effects n (concat chunks @ rest)"
    by (rule chunk_effects_append)
  also have "chunk_effects n (butlast c) = chunk_effects n c"
    using chunk_effects_append [of n "butlast c" "[]"] c by (simp add: chunk_effects_Nil)
  finally show ?case
    using Cons by simp
qed

subsection \<open>The read loop\<close>

lemma read_loop_chunks:
  "read_loop n (map Chunk chunks @ rs) =
     (concat (map (chunk_effects n) chunks) @ fst (read_loop n rs), snd (read_loop n rs))"
  by (induction chunks) (simp_all add: case_prod_beta)

lemma read_loop_all_chunks:
  "read_loop n (map Chunk chunks) = (concat (map (chunk_effects n) chunks), None)"
  using read_loop_chunks [of n chunks "[]"] by simp

lemma read_loop_replace_chunk:
  assumes "chunk_effects n c = chunk_effects n c'"
  shows "read_loop n (before @ Chunk c # after) = read_loop n (before @ Chunk c' # after)"
proof (induction before)
  case Nil
  show ?case using assms by (simp add: case_prod_beta)
next
  case (Cons r before)
  then show ?case by (cases r) (simp_all add: case_prod_beta)
qed

subsection \<open>Paths\<close>

lemma getProp_at_path: "getProp v k = at_path v [k]"
  by (cases v) (simp_all split: option.splits)

lemma optional_get_at_path: "optional_get (at_path v ks) k = at_path v (ks @ [k])"
proof (induction v ks rule: at_path.induct)
  case (1 v)
  show ?case by (cases v) (simp_all split: option.splits)
next
  case (2 kvs k' ks)
  then show ?case by (simp split: option.splits)
qed simp_all

lemma delta_text_at_path: "delta_text parsed = at_path parsed text_path"
  by (simp add: delta_text_def text_path_def getProp_at_path optional_get_at_path)

subsection \<open>Updaters\<close>

lemma append_fragment_last:
  "append_fragment t (ms @ [\<lparr>role = Assistant, content = c\<rparr>]) =
     ms @ [\<lparr>role = Assistant, content = c @ t\<rparr>]"
  by (simp add: append_fragment_def Let_def nth_append)

lemma replace_with_error_last:
  "replace_with_error m (ms @ [\<lparr>role = Assistant, content = c\<rparr>]) =
     ms @ [\<lparr>role = Assistant, content = utf16 ''Error: '' @ m\<rparr>]"
  by (simp add: replace_with_error_def Let_def nth_append)

subsection \<open>Effects of the stream\<close>

lemma line_effects_fragments: "list_all is_fragment (line_effects n line)"
  by (simp add: line_effects_def Let_def split: option.splits json.splits)

lemma chunk_effects_fragments: "list_all is_fragment (chunk_effects n chunk)"
  by (simp add: chunk_effects_def list_all_iff line_effects_fragments [unfolded list_all_iff])

lemma read_loop_fragments: "list_all is_fragment (fst (read_loop n rs))"
proof (induction rs)
  case Nil
  show ?case by simp
next
  case (Cons r rs)
  then show ?case
    by (cases r) (simp_all add: case_prod_beta chunk_effects_fragments)
qed

lemma try_block_fragments: "list_all is_fragment (fst (try_block n env))"
  by (simp add: try_block_def read_loop_fragments split: option.splits chat_response.splits)

lemma streamed_text_append: "streamed_text (xs @ ys) = streamed_text xs @ streamed_text ys"
  by (simp add: streamed_text_def)

lemma streamed_text_concat: "streamed_text (concat xss) = concat (map streamed_text xss)"
  by (induction xss) (simp_all add: streamed_text_append, simp add: streamed_text_def)

lemma apply_fragments:
  assumes "list_all is_fragment es"
  shows "foldl apply_chat_effect
           \<lparr>chatMessages = ms @ [\<lparr>role = Assistant, content = c\<rparr>], chatInput = i, chatLoading = l\<rparr> es =
         \<lparr>chatMessages = ms @ [\<lparr>role = Assistant, content = c @ streamed_text es\<rparr>],
          chatInput = i, chatLoading = l\<rparr>"
  using assms
proof (induction es arbitrary: c)
  case Nil
  show ?case by (simp add: streamed_text_def)
next
  case (Cons e es)
  then obtain t where e: "e = AppendFragment t"
    by (cases e) simp_all
  show ?case
    using Cons by (simp add: e append_fragment_last streamed_text_def)
qed

lemma line_fragment:
  "streamed_text (line_effects n line) = appended_text n line"
proof (cases "startsWith line (utf16 ''data: '') \<and> drop 6 line \<noteq> utf16 ''[DONE]''")
  case False
  then show ?thesis
    by (auto simp: line_effects_def appended_text_def event_of_line_def streamed_text_def Let_def)
next
  case True
  show ?thesis
  proof (cases "JSON_parse (drop 6 line)")
    case None
    then show ?thesis
      using True
      by (simp add: line_effects_def appended_text_def event_of_line_def streamed_text_def Let_def)
  next
    case (Some parsed)
    show ?thesis
    proof (cases "at_path parsed [utf16 ''type''] = Some (JString (utf16 ''content-delta''))")
      case False
      then show ?thesis
        using True Some
        by (cases parsed)
           (simp_all add: line_effects_def appended_text_def event_of_line_def streamed_text_def
              Let_def getProp_at_path del: at_path.simps)
    next
      case ty: True
      then have nn: "parsed \<noteq> JNull" by auto
      have ev: "event_of_line line = Some parsed"
        using True Some ty by (simp add: event_of_line_def)
      have le: "line_effects n line =
                  [AppendFragment (toString n (or_empty n (at_path parsed text_path)))]"
        using True Some ty nn
        by (cases parsed)
           (simp_all add: line_effects_def Let_def getProp_at_path delta_text_at_path del: at_path.simps)
      show ?thesis
        by (simp add: le ev appended_text_def streamed_text_def or_empty_def split: option.splits)
    qed
  qed
qed

lemma appended_text_is_text:
  assumes "fragment_is_text line"
  shows "appended_text n line = spec_fragment line"
  using assms
  by (auto simp: appended_text_def spec_fragment_def fragment_is_text_def
      split: option.splits json.splits)

lemma chunk_fragment:
  "streamed_text (chunk_effects n chunk) = concat (map (appended_text n) (split_on 10 chunk))"
proof -
  have "concat (map (\<lambda>l. streamed_text (line_effects n l)) ls) = concat (map (appended_text n) ls)"
    for ls
    by (induction ls) (simp_all add: line_fragment)
  then show ?thesis
    by (simp add: chunk_effects_def streamed_text_concat comp_def)
qed

subsection \<open>The whole exchange\<close>

lemma chat_effects_accepted:
  assumes "trim (chatInput s) \<noteq> []" and "\<not> chatLoading s"
  shows "chat_effects n env s =
           [SetChatInput [],
            AppendMessage \<lparr>role = User, content = trim (chatInput s)\<rparr>,
            SetChatLoading True,
            AppendMessage \<lparr>role = Assistant, content = []\<rparr>]
           @ fst (try_block n env) @ catch_block (snd (try_block n env)) @ [SetChatLoading False]"
  using assms by (simp add: chat_effects_def case_prod_beta)

lemma chat_effects_rejected:
  "trim (chatInput s) = [] \<or> chatLoading s \<Longrightarrow> chat_effects n env s = []"
  by (auto simp: chat_effects_def)

lemma apply_start:
  "foldl apply_chat_effect s
     [SetChatInput [],
      AppendMessage \<lparr>role = User, content = trim (chatInput s)\<rparr>,
      SetChatLoading True,
      AppendMessage \<lparr>role = Assistant, content = []\<rparr>] = started s []"
  by (simp add: started_def)

lemma apply_fragments_started:
  assumes "list_all is_fragment es"
  shows "foldl apply_chat_effect (started s c) es = started s (c @ streamed_text es)"
  using apply_fragments [OF assms, of "chatMessages s @ [\<lparr>role = User, content = trim (chatInput s)\<rparr>]" c "[]" True]
  by (simp add: started_def)

lemma apply_catch_started:
  "foldl apply_chat_effect (started s c) (catch_block err) =
     started s (case err of None \<Rightarrow> c | Some e \<Rightarrow> utf16 ''Error: '' @ thrown_message e)"
  using replace_with_error_last [of _ "chatMessages s @ [\<lparr>role = User, content = trim (chatInput s)\<rparr>]" c]
  by (simp add: catch_block_def started_def split: option.splits)

lemma sendChatMessage_accepted:
  assumes "trim (chatInput s) \<noteq> []" and "\<not> chatLoading s"
  shows "sendChatMessage n env s =
           finished_exchange s
             (case snd (try_block n env) of
                None \<Rightarrow> streamed_text (fst (try_block n env))
              | Some e \<Rightarrow> utf16 ''Error: '' @ thrown_message e)"
  unfolding sendChatMessage_def chat_effects_accepted [OF assms] foldl_append apply_start
    apply_fragments_started [OF try_block_fragments] apply_catch_started
  by (simp add: started_def finished_exchange_def split: option.splits)

subsection \<open>Evaluating the examples\<close>

lemmas json_eval =
  JSON_parse_def tokenize.simps next_token_def lex_string.simps is_json_ws_def is_digit_def is_number_char_def
  valid_number_def valid_fraction_def valid_exponent_def hex4_def hex_value_def escape_char_def
  utf16_def

lemmas line_eval =
  spec_fragment_def fragment_is_text_def event_of_line_def text_path_def startsWith_def

lemmas reducer_eval =
  line_effects_def startsWith_def delta_text_def or_empty_def Let_def

lemma example_stream_lines: "split_on 10 (concat [event_hi @ [10], event_there @ [10], utf16 ''data: [DONE]'' @ [10]]) = [event_hi, event_there, utf16 ''data: [DONE]'', []]"
  by (simp add: event_hi_def event_there_def utf16_def)

lemma spec_fragment_event_hi: "spec_fragment event_hi = utf16 ''Hi''"
  by (simp add: event_hi_def line_eval json_eval)

lemma spec_fragment_event_there: "spec_fragment event_there = utf16 '' there''"
  by (simp add: event_there_def line_eval json_eval)

lemma example_fragments_are_text: "fragment_is_text event_hi" "fragment_is_text event_there" "fragment_is_text (utf16 ''data: [DONE]'')" "fragment_is_text []"
  by (simp_all add: event_hi_def event_there_def line_eval json_eval)

lemmas fragment_eval =
  appended_text_def fragment_converts_def event_of_line_def text_path_def startsWith_def

lemma example_fragments_convert:
  "fragment_converts event_hi" "fragment_converts event_there"
  "fragment_converts (utf16 ''data: [DONE]'')" "fragment_converts []"
  by (simp_all add: event_hi_def event_there_def fragment_eval json_eval)

lemma event_true_value:
  "event_of_line event_true \<noteq> None"
  "Option.bind (event_of_line event_true) (\<lambda>e. at_path e text_path) = Some (JBool True)"
  "fragment_converts event_true"
  "spec_fragment event_true = []"
  "appended_text n event_true = utf16 ''true''"
  by (simp_all add: event_true_def fragment_eval line_eval json_eval)

lemma event_false_value:
  "event_of_line event_false \<noteq> None"
  "Option.bind (event_of_line event_false) (\<lambda>e. at_path e text_path) = Some (JBool False)"
  "fragment_converts event_false"
  "appended_text n event_false = []"
  by (simp_all add: event_false_def fragment_eval line_eval json_eval)

lemma split_single_line:
  "split_on 10 (concat [event_true @ [10]]) = [event_true, []]"
  "split_on 10 (concat [event_false @ [10]]) = [event_false, []]"
  by (simp_all add: event_true_def event_false_def utf16_def)

lemma appended_text_Nil: "appended_text n [] = []"
  by (simp add: fragment_eval utf16_def)

lemma example_input_trimmed: "trim (chatInput example_state) = utf16 ''hello''"
  by (simp add: example_state_def trim_def is_js_whitespace_def utf16_def)


lemma example_accepted:
  "trim (chatInput example_state) \<noteq> []" "\<not> chatLoading example_state"
  by (simp_all add: example_input_trimmed utf16_def) (simp add: example_state_def)

lemma line_effects_event_hi: "line_effects n event_hi = [AppendFragment (utf16 ''Hi'')]"
  by (simp add: event_hi_def reducer_eval json_eval)

lemma line_effects_event_there: "line_effects n event_there = [AppendFragment (utf16 '' there'')]"
  by (simp add: event_there_def reducer_eval json_eval)

lemma line_effects_done: "line_effects n (utf16 ''data: [DONE]'') = []"
  by (simp add: reducer_eval utf16_def)

lemma no_newline_in_examples:
  "10 \<notin> set event_hi" "10 \<notin> set event_there" "10 \<notin> set (utf16 ''data: [DONE]'')"
  "10 \<notin> set (utf16 ''data: not-json'')"
  by (simp_all add: event_hi_def event_there_def utf16_def)

lemma split_example_chunks:
  "split_on 10 chunk_with_malformed_line = [event_hi, utf16 ''data: not-json'', event_there, []]"
  "split_on 10 chunk_without_malformed_line = [event_hi, event_there, []]"
  by (simp_all add: chunk_with_malformed_line_def chunk_without_malformed_line_def
      split_on_append split_on_no_sep no_newline_in_examples)

subsection \<open>Exchanges whose request succeeds\<close>

lemma try_block_ok:
  assumes "apiKey env = Some key" and "key \<noteq> []"
    and "fetch_result env = Response st (Some reads)" and "200 \<le> st \<and> st \<le> 299"
  shows "try_block n env = read_loop n reads"
  using assms by (simp add: try_block_def response_ok_def)

lemma sendChatMessage_chunks:
  assumes "trim (chatInput s) \<noteq> []" and "\<not> chatLoading s"
    and "apiKey env = Some key" and "key \<noteq> []"
    and "fetch_result env = Response st (Some (map Chunk chunks))"
    and "200 \<le> st \<and> st \<le> 299"
  shows "sendChatMessage n env s =
           finished_exchange s (streamed_text (concat (map (chunk_effects n) chunks)))"
  using try_block_ok [OF assms(3-6), of n]
  by (simp add: sendChatMessage_accepted [OF assms(1,2)] read_loop_all_chunks)

lemma example_exchange:
  "sendChatMessage n (example_env 200 (map Chunk chunks)) example_state =
     \<lparr>chatMessages =
        [\<lparr>role = User, content = utf16 ''ping''\<rparr>, \<lparr>role = Assistant, content = utf16 ''pong''\<rparr>,
         \<lparr>role = User, content = utf16 ''hello''\<rparr>,
         \<lparr>role = Assistant, content = streamed_text (concat (map (chunk_effects n) chunks))\<rparr>],
      chatInput = [], chatLoading = False\<rparr>"
proof -
  have "sendChatMessage n (example_env 200 (map Chunk chunks)) example_state =
          finished_exchange example_state (streamed_text (concat (map (chunk_effects n) chunks)))"
    by (rule sendChatMessage_chunks [OF example_accepted, of _ "utf16 ''key''" 200])
       (simp_all add: example_env_def utf16_def)
  then show ?thesis
    by (simp add: finished_exchange_def example_input_trimmed) (simp add: example_state_def)
qed

subsection \<open>The states of an exchange\<close>

lemma catch_block_updates: "list_all is_transcript_update (catch_block err)"
  by (simp add: catch_block_def split: option.splits)

lemma fragment_is_update: "is_fragment e \<Longrightarrow> is_transcript_update e"
  by (cases e) simp_all

lemma fragments_are_updates: "list_all is_fragment es \<Longrightarrow> list_all is_transcript_update es"
  by (simp add: list_all_iff fragment_is_update)

lemma apply_updates_started:
  assumes "list_all is_transcript_update es"
  shows "\<exists>c'. foldl apply_chat_effect (started s c) es = started s c'"
  using assms
proof (induction es arbitrary: c)
  case Nil
  show ?case by auto
next
  case (Cons e es)
  let ?ms = "chatMessages s @ [\<lparr>role = User, content = trim (chatInput s)\<rparr>]"
  have "\<exists>c1. apply_chat_effect (started s c) e = started s c1"
  proof (cases e)
    case (AppendFragment t)
    then show ?thesis
      using append_fragment_last [of t ?ms c] by (simp add: started_def)
  next
    case (ReplaceWithError m)
    then show ?thesis
      using replace_with_error_last [of m ?ms c] by (simp add: started_def)
  qed (use Cons.prems in simp_all)
  then obtain c1 where "apply_chat_effect (started s c) e = started s c1" ..
  then show ?case
    using Cons by simp
qed

lemma state_after_cases:
  assumes "trim (chatInput s) \<noteq> []" and "\<not> chatLoading s" and "4 \<le> k"
  shows "(k < length (chat_effects n env s) \<and> (\<exists>c. state_after n env s k = started s c)) \<or>
         (length (chat_effects n env s) \<le> k \<and> (\<exists>c. state_after n env s k = finished_exchange s c))"
proof -
  define start where "start =
           [SetChatInput [],
            AppendMessage \<lparr>role = User, content = trim (chatInput s)\<rparr>,
            SetChatLoading True,
            AppendMessage \<lparr>role = Assistant, content = []\<rparr>]"
  define mid where "mid = fst (try_block n env) @ catch_block (snd (try_block n env))"
  have effs: "chat_effects n env s = start @ mid @ [SetChatLoading False]"
    using chat_effects_accepted [OF assms(1,2)] by (simp add: start_def mid_def)
  have len: "length start = 4"
    by (simp add: start_def)
  have mid: "list_all is_transcript_update mid"
    by (simp add: mid_def fragments_are_updates [OF try_block_fragments] catch_block_updates)
  have first: "foldl apply_chat_effect s start = started s []"
    unfolding start_def by (rule apply_start)
  show ?thesis
  proof (cases "k < length (chat_effects n env s)")
    case True
    then have "k - 4 \<le> length mid"
      by (simp add: effs len)
    then have "take k (chat_effects n env s) = start @ take (k - 4) mid"
      using assms(3) by (simp add: effs len)
    moreover have "list_all is_transcript_update (take (k - 4) mid)"
      using mid by (auto simp: list_all_iff dest: in_set_takeD)
    ultimately have "\<exists>c. state_after n env s k = started s c"
      unfolding state_after_def
      using apply_updates_started [of "take (k - 4) mid" s "[]"]
      by (simp only: foldl_append first)
    with True show ?thesis by simp
  next
    case False
    then have "state_after n env s k = sendChatMessage n env s"
      by (simp add: state_after_def sendChatMessage_def)
    with False show ?thesis
      using sendChatMessage_accepted [OF assms(1,2), of n env] by auto
  qed
qed

subsection \<open>Streams with the same effects\<close>

lemma try_block_reads:
  "try_block n (env\<lparr>fetch_result := Response st (Some reads)\<rparr>) =
     (if (case apiKey env of None \<Rightarrow> True | Some k \<Rightarrow> k = [])
      then ([], Some (ErrorObject (utf16 ''VITE_COHERE_KEY not set'')))
      else if \<not> response_ok st
      then ([], Some (ErrorObject (utf16 ''API error: '' @ decimal st)))
      else read_loop n reads)"
  by (simp add: try_block_def)

lemma sendChatMessage_same_reads:
  assumes "read_loop n reads = read_loop n reads'"
  shows "chat_effects n (env\<lparr>fetch_result := Response st (Some reads)\<rparr>) s =
         chat_effects n (env\<lparr>fetch_result := Response st (Some reads')\<rparr>) s"
    and "sendChatMessage n (env\<lparr>fetch_result := Response st (Some reads)\<rparr>) s =
         sendChatMessage n (env\<lparr>fetch_result := Response st (Some reads')\<rparr>) s"
  using assms by (simp_all add: sendChatMessage_def chat_effects_def try_block_reads)

lemma read_loop_replace_two_chunks:
  assumes "chunk_effects n a @ chunk_effects n b = chunk_effects n a' @ chunk_effects n b'"
  shows "read_loop n (before @ Chunk a # Chunk b # after) =
         read_loop n (before @ Chunk a' # Chunk b' # after)"
proof (induction before)
  case Nil
  show ?case using assms by (simp add: case_prod_beta)
next
  case (Cons r before)
  then show ?case by (cases r) (simp_all add: case_prod_beta)
qed

lemma malformed_line_effects:
  "JSON_parse payload = None \<Longrightarrow> line_effects n (utf16 ''data: '' @ payload) = []"
  by (simp add: line_effects_def Let_def utf16_def)

lemma short_is_no_event: "length h < 6 \<Longrightarrow> \<not> startsWith h (utf16 ''data: '')"
  by (auto simp: startsWith_def utf16_def)

lemma prefix_tail_is_no_event:
  assumes "0 < k" and "k < 6"
  shows "\<not> startsWith (drop k (utf16 ''data: '' @ payload)) (utf16 ''data: '')"
proof -
  from assms have "k = 1 \<or> k = 2 \<or> k = 3 \<or> k = 4 \<or> k = 5" by arith
  then show ?thesis
    by (auto simp: startsWith_def utf16_def)
qed

lemma no_event_effects:
  "\<not> startsWith l (utf16 ''data: '') \<or> JSON_parse (drop 6 l) = None \<Longrightarrow> line_effects n l = []"
  by (auto simp: line_effects_def Let_def)

subsection \<open>Parts of a JSON text\<close>

text \<open>
  A text that \<open>JSON.parse\<close> accepts has no proper beginning that parses to anything but
  a number, unless only white space follows the beginning; and behind the prefix
  \<open>data: \<close>, which can only stand inside a string of it, it has no end that
  \<open>JSON.parse\<close> accepts.
\<close>

lemma lex_string_append:
  "lex_string acc cs = Some (s, r) \<Longrightarrow> lex_string acc (cs @ b) = Some (s, r @ b)"
proof (induction acc cs rule: lex_string.induct)
  case (1 acc)
  then show ?case by (simp add: lex_string.simps)
next
  case (2 acc c cs)
  show ?case
    using "2.prems" "2.IH"
    unfolding append_Cons lex_string.simps(2) [of acc c cs] lex_string.simps(2) [of acc c "cs @ b"]
    by (fastforce split: if_splits list.splits option.splits)
qed

lemma next_token_append:
  assumes "next_token c cs = Some (tok, rest)"
  shows "next_token c (cs @ b) = Some (tok, rest @ b) \<or> (rest = [] \<and> (\<exists>l. tok = TNumber l))"
proof (cases "c = 45 \<or> is_digit c")
  case True
  then have c: "c \<noteq> 123" "c \<noteq> 125" "c \<noteq> 91" "c \<noteq> 93" "c \<noteq> 58" "c \<noteq> 44" "c \<noteq> 34"
    by (auto simp: is_digit_def)
  from assms True c have v: "valid_number (c # takeWhile is_number_char cs)"
    and tok: "tok = TNumber (c # takeWhile is_number_char cs)"
    and rest: "rest = dropWhile is_number_char cs"
    by (auto simp: next_token_def split: if_splits)
  show ?thesis
  proof (cases "rest = []")
    case True
    with tok show ?thesis by simp
  next
    case False
    then have ex: "\<exists>x\<in>set cs. \<not> is_number_char x"
      using rest by (auto simp: dropWhile_eq_Nil_conv)
    then have "takeWhile is_number_char (cs @ b) = takeWhile is_number_char cs"
      and "dropWhile is_number_char (cs @ b) = dropWhile is_number_char cs @ b"
      by (auto simp: takeWhile_append1 dropWhile_append1)
    then show ?thesis
      using True c v tok rest by (simp add: next_token_def)
  qed
next
  case False
  have len: "n \<le> length cs" if "take n cs = ys" and "length ys = n" for n ys
    using that by (metis length_take min.cobounded1)
  have "3 \<le> length cs" if "take 3 cs = [x, y, z]" for x y z
    using len [OF that] by simp
  moreover have "4 \<le> length cs" if "take 4 cs = [x, y, z, w]" for x y z w
    using len [OF that] by simp
  ultimately show ?thesis
    using False assms lex_string_append [of "[]" cs _ _ b]
    by (auto simp: next_token_def utf16_def split: if_splits option.splits)
qed

lemma tokenize_append:
  "tokenize a = Some ta \<Longrightarrow>
     tokenize (a @ b) = map_option ((@) ta) (tokenize b) \<or> (\<exists>ts l. ta = ts @ [TNumber l])"
proof (induction a arbitrary: ta rule: tokenize.induct)
  case 1
  then show ?case
    by (simp add: tokenize.simps option.map_ident [unfolded id_def])
next
  case (2 c cs)
  show ?case
  proof (cases "is_json_ws c")
    case True
    then show ?thesis
      using "2.prems" "2.IH"(1) by (simp add: tokenize.simps)
  next
    case False
    with "2.prems" obtain tok rest ta' where nt: "next_token c cs = Some (tok, rest)"
      and ta': "tokenize rest = Some ta'" and ta: "ta = tok # ta'"
      by (auto simp: tokenize.simps split: option.splits)
    from "2.IH"(2) [OF False nt refl ta']
    have IH: "tokenize (rest @ b) = map_option ((@) ta') (tokenize b) \<or> (\<exists>ts l. ta' = ts @ [TNumber l])" .
    from next_token_append [OF nt, of b]
    show ?thesis
    proof
      assume "next_token c (cs @ b) = Some (tok, rest @ b)"
      then have "tokenize ((c # cs) @ b) = map_option ((#) tok) (tokenize (rest @ b))"
        using False by (simp add: tokenize.simps)
      with IH show ?thesis
        by (auto simp: ta option.map_comp comp_def intro: exI [of _ "tok # _"])
    next
      assume "rest = [] \<and> (\<exists>l. tok = TNumber l)"
      then have "ta = [] @ [tok]" and "\<exists>l. tok = TNumber l"
        using ta ta' by (simp_all add: tokenize.simps)
      then show ?thesis by blast
    qed
  qed
qed

lemma tokenize_no_tokens: "tokenize b = Some [] \<Longrightarrow> list_all is_json_ws b"
proof (induction b rule: tokenize.induct)
  case 1
  show ?case by simp
next
  case (2 c cs)
  then show ?case
    by (auto simp: tokenize.simps split: if_splits option.splits)
qed

lemma parse_tokens_extended:
  "parse_tokens fs r xs = Some v \<Longrightarrow> ys \<noteq> [] \<Longrightarrow> parse_tokens fs r (xs @ ys) = None"
proof (induction xs arbitrary: fs r)
  case Nil
  then show ?case
    by (cases ys; cases r) (simp_all split: if_splits)
next
  case (Cons t ts)
  then show ?case
    by (cases r) (auto split: option.splits)
qed

lemma push_value_emptied: "push_value v fs = Some ([], r) \<Longrightarrow> r = Some v"
  by (induction v fs rule: push_value.induct) simp_all

lemma parse_tokens_last_number:
  "parse_tokens fs r (ts @ [TNumber l]) = Some v \<Longrightarrow> v = JNumber l"
proof (induction ts arbitrary: fs r)
  case Nil
  then show ?case
    by (cases r) (auto split: option.splits if_splits dest: push_value_emptied)
next
  case (Cons t ts)
  then show ?case
    by (cases r) (auto split: option.splits)
qed

lemma first_part_no_event:
  assumes "JSON_parse (a @ b) \<noteq> None" and "\<not> list_all is_json_ws b"
  shows "line_effects n (utf16 ''data: '' @ a) = []"
proof (cases "JSON_parse a")
  case None
  then show ?thesis by (rule malformed_line_effects)
next
  case (Some v)
  then obtain ta where ta: "tokenize a = Some ta" and v: "parse_tokens [] None ta = Some v"
    by (auto simp: JSON_parse_def split: option.splits)
  from tokenize_append [OF ta, of b]
  have "\<exists>l. v = JNumber l"
  proof
    assume app: "tokenize (a @ b) = map_option ((@) ta) (tokenize b)"
    with assms(1) obtain tb where tb: "tokenize b = Some tb"
      and ok: "parse_tokens [] None (ta @ tb) \<noteq> None"
      by (auto simp: JSON_parse_def split: option.splits)
    from parse_tokens_extended [OF v, of tb] ok have "tb = []" by auto
    with tb assms(2) tokenize_no_tokens show ?thesis by blast
  next
    assume "\<exists>ts l. ta = ts @ [TNumber l]"
    with v parse_tokens_last_number show ?thesis by blast
  qed
  then obtain l where "v = JNumber l" ..
  with Some show ?thesis
    by (simp add: line_effects_def Let_def utf16_def)
qed

lemma lex_string_plain: "plain c \<Longrightarrow> lex_string acc (c # cs) = lex_string (acc @ [c]) cs"
  by (simp add: lex_string.simps plain_def)

lemma lex_string_plain_run:
  "list_all plain u \<Longrightarrow> lex_string acc (u @ r) = lex_string (acc @ u) r"
  by (induction u arbitrary: acc) (simp_all add: lex_string_plain)

lemma number_char_plain: "is_number_char c \<Longrightarrow> plain c"
  by (auto simp: is_number_char_def is_digit_def plain_def)

text \<open>What a token consumes, when the token is no string: plain code units.\<close>

lemma next_token_consumes:
  assumes "next_token c cs = Some (tok, r)" and "c \<noteq> 34"
  shows "\<exists>u. c # cs = u @ r \<and> list_all plain u"
proof (cases "c = 45 \<or> is_digit c")
  case True
  then have c: "c \<noteq> 123" "c \<noteq> 125" "c \<noteq> 91" "c \<noteq> 93" "c \<noteq> 58" "c \<noteq> 44" "c \<noteq> 34"
    by (auto simp: is_digit_def)
  from assms(1) True c have r: "r = dropWhile is_number_char cs"
    by (auto simp: next_token_def split: if_splits)
  have "c # cs = (c # takeWhile is_number_char cs) @ r"
    by (simp add: r)
  moreover have "plain x" if "x \<in> set (takeWhile is_number_char cs)" for x
    using set_takeWhileD [OF that] by (simp add: number_char_plain)
  moreover have "plain c"
    using True by (auto simp: plain_def is_digit_def)
  ultimately have "c # cs = (c # takeWhile is_number_char cs) @ r"
    and "list_all plain (c # takeWhile is_number_char cs)"
    by (simp_all add: list_all_iff)
  then show ?thesis by blast
next
  case False
  have split3: "cs = take 3 cs @ drop 3 cs" and split4: "cs = take 4 cs @ drop 4 cs"
    by simp_all
  from False assms consider
      (punct) "r = cs" "plain c"
    | (three) x y z where "r = drop 3 cs" "take 3 cs = [x, y, z]" "list_all plain [c, x, y, z]"
    | (four) x y z w where "r = drop 4 cs" "take 4 cs = [x, y, z, w]" "list_all plain [c, x, y, z, w]"
    by (auto simp: next_token_def utf16_def plain_def split: if_splits option.splits)
  then show ?thesis
  proof cases
    case punct
    then show ?thesis by (intro exI [of _ "[c]"]) simp
  next
    case three
    then show ?thesis
      using split3 by (intro exI [of _ "[c, x, y, z]"]) (simp del: append_take_drop_id)
  next
    case four
    then show ?thesis
      using split4 by (intro exI [of _ "[c, x, y, z, w]"]) (simp del: append_take_drop_id)
  qed
qed

text \<open>No text can be read both from inside a string and from outside one.\<close>

lemma no_double_reading:
  "lex_string acc xs = Some (s, rest) \<Longrightarrow> tokenize rest \<noteq> None \<Longrightarrow> tokenize xs = None"
proof (induction "length xs" arbitrary: xs acc s rest rule: less_induct)
  case less
  show ?case
  proof (cases xs)
    case Nil
    with less.prems show ?thesis by (simp add: lex_string.simps)
  next
    case (Cons c cs)
    show ?thesis
    proof (rule ccontr)
      assume "tokenize xs \<noteq> None"
      then obtain t where t: "tokenize (c # cs) = Some t"
        using Cons by auto
      show False
      proof (cases "is_json_ws c")
        case True
        with t have tcs: "tokenize cs \<noteq> None" by (simp add: tokenize.simps)
        from True less.prems(1) Cons have "c = 32"
          by (auto simp: is_json_ws_def lex_string.simps)
        then have "lex_string (acc @ [c]) cs = Some (s, rest)"
          using less.prems(1) Cons by (simp add: lex_string.simps)
        from less.hyps [OF _ this less.prems(2)] tcs Cons show False by simp
      next
        case False
        with t obtain tok r t' where nt: "next_token c cs = Some (tok, r)" and tr: "tokenize r = Some t'"
          by (auto simp: tokenize.simps split: option.splits)
        show False
        proof (cases "c = 34")
          case True
          with nt obtain s' where inner: "lex_string [] cs = Some (s', r)"
            by (auto simp: next_token_def split: option.splits)
          from True less.prems Cons have "tokenize cs \<noteq> None"
            by (simp add: lex_string.simps)
          moreover from less.hyps [OF _ inner] tr Cons have "tokenize cs = None" by simp
          ultimately show False by simp
        next
          case False
          from next_token_consumes [OF nt False] obtain u where u: "c # cs = u @ r" "list_all plain u"
            by blast
          then have "lex_string (acc @ u) r = Some (s, rest)"
            using less.prems(1) Cons lex_string_plain_run [of u acc r] by simp
          moreover have "length r < length xs"
            using next_token_shorter [OF nt] Cons by simp
          ultimately have "tokenize r = None"
            using less.hyps less.prems(2) by blast
          with tr show False by simp
        qed
      qed
    qed
  qed
qed

lemma data_prefix_units: "utf16 ''data: '' = [100, 97, 116, 97, 58, 32]"
  by (simp add: utf16_def)

lemma lex_string_boundary:
  "lex_string acc (cs @ utf16 ''data: '' @ S) = Some (s, rest) \<Longrightarrow>
     (\<exists>cs'. rest = cs' @ utf16 ''data: '' @ S \<and> length cs' < length cs) \<or>
     (\<exists>acc'. lex_string acc' S = Some (s, rest))"
proof (induction "length cs" arbitrary: cs acc rule: less_induct)
  case less
  let ?Z = "utf16 ''data: '' @ S"
  show ?case
  proof (cases cs)
    case Nil
    have "list_all plain (utf16 ''data: '')"
      by (simp add: data_prefix_units plain_def)
    then have "lex_string (acc @ utf16 ''data: '') S = Some (s, rest)"
      using less.prems Nil lex_string_plain_run [of "utf16 ''data: ''" acc S] by simp
    then show ?thesis by blast
  next
    case (Cons c cs1)
    note IH = less.hyps [where acc = "acc @ [u]" for u]
    consider (quote) "c = 34" | (escape) "c = 92" | (other) "plain c" | (control) "c < 32"
      by (cases "c < 32") (auto simp: plain_def)
    then show ?thesis
    proof cases
      case quote
      with less.prems Cons have "rest = cs1 @ ?Z"
        by (simp add: lex_string.simps)
      with Cons show ?thesis by auto
    next
      case control
      with less.prems Cons show ?thesis
        by (simp add: lex_string.simps)
    next
      case other
      with less.prems Cons have "lex_string (acc @ [c]) (cs1 @ ?Z) = Some (s, rest)"
        by (simp add: lex_string_plain)
      from less.hyps [OF _ this] Cons show ?thesis by auto
    next
      case escape
      show ?thesis
      proof (cases cs1)
        case Nil
        with less.prems Cons escape show ?thesis
          by (simp add: lex_string.simps data_prefix_units escape_char_def)
      next
        case c1: (Cons e es)
        show ?thesis
        proof (cases "e = 117")
          case False
          with less.prems Cons escape c1 obtain u
            where "lex_string (acc @ [u]) (es @ ?Z) = Some (s, rest)"
            by (auto simp: lex_string.simps split: option.splits)
          from less.hyps [OF _ this] Cons c1 show ?thesis by auto
        next
          case True
          consider (zero) "es = []" | (one) h1 where "es = [h1]" | (two) h1 h2 where "es = [h1, h2]"
            | (three) h1 h2 h3 where "es = [h1, h2, h3]"
            | (more) h1 h2 h3 h4 es' where "es = h1 # h2 # h3 # h4 # es'"
            by (metis list.exhaust)
          then show ?thesis
          proof cases
            case zero
            with less.prems Cons escape c1 True show ?thesis
              by (simp add: lex_string.simps data_prefix_units hex4_def hex_value_def split: option.splits)
          next
            case one
            with less.prems Cons escape c1 True show ?thesis
              by (simp add: lex_string.simps data_prefix_units hex4_def hex_value_def split: option.splits)
          next
            case two
            with less.prems Cons escape c1 True obtain u
              where "lex_string (acc @ [u]) ([116, 97, 58, 32] @ S) = Some (s, rest)"
              by (auto simp: lex_string.simps data_prefix_units split: option.splits)
            moreover have "list_all plain [116, 97, 58, 32]"
              by (simp add: plain_def)
            ultimately have "lex_string ((acc @ [u]) @ [116, 97, 58, 32]) S = Some (s, rest)"
              using lex_string_plain_run [of "[116, 97, 58, 32]" "acc @ [u]" S] by simp
            then show ?thesis by blast
          next
            case three
            with less.prems Cons escape c1 True obtain u
              where "lex_string (acc @ [u]) ([97, 116, 97, 58, 32] @ S) = Some (s, rest)"
              by (auto simp: lex_string.simps data_prefix_units split: option.splits)
            moreover have "list_all plain [97, 116, 97, 58, 32]"
              by (simp add: plain_def)
            ultimately have "lex_string ((acc @ [u]) @ [97, 116, 97, 58, 32]) S = Some (s, rest)"
              using lex_string_plain_run [of "[97, 116, 97, 58, 32]" "acc @ [u]" S] by simp
            then show ?thesis by blast
          next
            case more
            with less.prems Cons escape c1 True obtain u
              where "lex_string (acc @ [u]) (es' @ ?Z) = Some (s, rest)"
              by (auto simp: lex_string.simps split: option.splits)
            from less.hyps [OF _ this] Cons c1 more show ?thesis by auto
          qed
        qed
      qed
    qed
  qed
qed

lemma dropWhile_before:
  "\<not> P z \<Longrightarrow> dropWhile P (cs @ z # Z) = dropWhile P cs @ z # Z"
  by (induction cs) simp_all

lemma take_before:
  assumes "take n (cs @ z # Z) = ys" and "length ys = n" and "z \<notin> set ys"
  shows "n \<le> length cs"
proof (rule ccontr)
  assume "\<not> n \<le> length cs"
  then have "take n (cs @ z # Z) = cs @ z # take (n - Suc (length cs)) Z"
    by (simp add: take_Cons' Suc_diff_Suc)
  with assms(1,3) show False by auto
qed

lemma next_token_before_data:
  assumes "next_token c (cs @ 100 # Z) = Some (tok, r)" and "c \<noteq> 34"
  shows "\<exists>cs'. r = cs' @ 100 # Z \<and> length cs' \<le> length cs"
proof (cases "c = 45 \<or> is_digit c")
  case True
  then have c: "c \<noteq> 123" "c \<noteq> 125" "c \<noteq> 91" "c \<noteq> 93" "c \<noteq> 58" "c \<noteq> 44" "c \<noteq> 34"
    by (auto simp: is_digit_def)
  from assms(1) True c have "r = dropWhile is_number_char (cs @ 100 # Z)"
    by (auto simp: next_token_def split: if_splits)
  then have "r = dropWhile is_number_char cs @ 100 # Z"
    by (simp add: dropWhile_before is_number_char_def is_digit_def)
  then show ?thesis
    using length_dropWhile_le [of is_number_char cs] by blast
next
  case False
  let ?xs = "cs @ 100 # Z"
  from False assms have
    "r = ?xs \<or>
     (take 3 ?xs = [114, 117, 101] \<and> r = drop 3 ?xs) \<or>
     (take 4 ?xs = [97, 108, 115, 101] \<and> r = drop 4 ?xs) \<or>
     (take 3 ?xs = [117, 108, 108] \<and> r = drop 3 ?xs)"
    by (simp add: next_token_def utf16_def split: if_splits)
  then consider
      (punct) "r = ?xs"
    | (k3) "r = drop 3 ?xs" "3 \<le> length cs"
    | (k4) "r = drop 4 ?xs" "4 \<le> length cs"
    using take_before [of 3 cs 100 Z "[114, 117, 101]"]
      take_before [of 4 cs 100 Z "[97, 108, 115, 101]"]
      take_before [of 3 cs 100 Z "[117, 108, 108]"]
    by fastforce
  then show ?thesis
  proof cases
    case punct
    then show ?thesis by blast
  next
    case k3
    then have "r = drop 3 cs @ 100 # Z" by simp
    then show ?thesis by (intro exI [of _ "drop 3 cs"]) simp
  next
    case k4
    then have "r = drop 4 cs @ 100 # Z" by simp
    then show ?thesis by (intro exI [of _ "drop 4 cs"]) simp
  qed
qed

lemma tokenize_reaches_string:
  "tokenize (Y @ utf16 ''data: '' @ S) \<noteq> None \<Longrightarrow>
     \<exists>acc s rest. lex_string acc S = Some (s, rest) \<and> tokenize rest \<noteq> None"
proof (induction "length Y" arbitrary: Y rule: less_induct)
  case less
  let ?Z = "utf16 ''data: '' @ S"
  have Z: "?Z = 100 # [97, 116, 97, 58, 32] @ S"
    by (simp add: data_prefix_units)
  show ?case
  proof (cases Y)
    case Nil
    have "tokenize ?Z = None"
      by (simp add: Z tokenize.simps next_token_def is_json_ws_def is_digit_def utf16_def)
    with less.prems Nil show ?thesis by simp
  next
    case (Cons c cs)
    show ?thesis
    proof (cases "is_json_ws c")
      case True
      with less.prems Cons have "tokenize (cs @ ?Z) \<noteq> None"
        by (simp add: tokenize.simps)
      from less.hyps [OF _ this] Cons show ?thesis by simp
    next
      case False
      with less.prems Cons obtain tok r where nt: "next_token c (cs @ ?Z) = Some (tok, r)"
        and tr: "tokenize r \<noteq> None"
        by (auto simp: tokenize.simps split: option.splits)
      show ?thesis
      proof (cases "c = 34")
        case True
        with nt obtain s where "lex_string [] (cs @ ?Z) = Some (s, r)"
          by (auto simp: next_token_def split: option.splits)
        from lex_string_boundary [OF this] show ?thesis
        proof
          assume "\<exists>cs'. r = cs' @ ?Z \<and> length cs' < length cs"
          then obtain cs' where "r = cs' @ ?Z" "length cs' < length cs" by blast
          with less.hyps [of cs'] tr Cons show ?thesis by simp
        next
          assume "\<exists>acc'. lex_string acc' S = Some (s, r)"
          with tr show ?thesis by blast
        qed
      next
        case False
        from next_token_before_data [OF nt [unfolded Z] False]
        obtain cs' where "r = cs' @ ?Z" "length cs' \<le> length cs"
          by (auto simp: Z)
        with less.hyps [of cs'] tr Cons show ?thesis by simp
      qed
    qed
  qed
qed

lemma second_part_no_event:
  assumes "JSON_parse (X @ utf16 ''data: '' @ S) \<noteq> None"
  shows "line_effects n (utf16 ''data: '' @ S) = []"
proof -
  from assms have "tokenize (X @ utf16 ''data: '' @ S) \<noteq> None"
    by (auto simp: JSON_parse_def split: option.splits)
  from tokenize_reaches_string [OF this]
  obtain acc s rest where "lex_string acc S = Some (s, rest)" "tokenize rest \<noteq> None"
    by blast
  then have "tokenize S = None"
    by (rule no_double_reading)
  then have "JSON_parse S = None"
    by (simp add: JSON_parse_def)
  then show ?thesis
    by (rule malformed_line_effects)
qed

section \<open>Properties of the chat flow\<close>

text \<open>
  Claim C3, as amended. Take an exchange whose request succeeds and whose stream arrives in
  chunks of whole lines, each line ended by a newline, and in which every value at
  \<open>delta.message.content.text\<close> of a \<open>content-delta\<close> envelope has a string conversion.
  Then the exchange ends with the user turn followed by an assistant turn whose content is
  the concatenation, over the lines of the whole stream in order, of what the reducer
  appends for the line. For a \<open>data: \<close> line that is not the sentinel and parses to a
  \<open>content-delta\<close> envelope this is the value at the path, converted to a string, when the
  value is truthy, and the empty string when the path is missing or the value is falsy
  (\<open>null\<close>, \<open>false\<close>, a zero, the empty string); for every other line it is the empty
  string. Where the value at the path is a string or the path is missing, this is the
  fragment the specification assigns to the line.
\<close>

theorem stream_reducer_appends_fragments:
  assumes "trim (chatInput s) \<noteq> []" and "\<not> chatLoading s"
    and "apiKey env = Some key" and "key \<noteq> []"
    and "fetch_result env = Response st (Some (map Chunk chunks))"
    and "200 \<le> st \<and> st \<le> 299"
    and "\<forall>chunk\<in>set chunks. chunk \<noteq> [] \<and> last chunk = 10"
    and "\<forall>line\<in>set (split_on 10 (concat chunks)). fragment_converts line"
  shows "sendChatMessage n env s =
           finished_exchange s (concat (map (appended_text n) (split_on 10 (concat chunks)))) \<and>
         (\<forall>line. fragment_is_text line \<longrightarrow> appended_text n line = spec_fragment line)"
proof
  have tb: "try_block n env = (concat (map (chunk_effects n) chunks), None)"
    using try_block_ok [OF assms(3-6)] by (simp add: read_loop_all_chunks)
  have "streamed_text (concat (map (chunk_effects n) chunks)) =
          streamed_text (chunk_effects n (concat chunks))"
    using chunk_effects_whole_lines [OF assms(7), of n "[]"] by (simp add: chunk_effects_Nil)
  also have "\<dots> = concat (map (appended_text n) (split_on 10 (concat chunks)))"
    by (rule chunk_fragment)
  finally show "sendChatMessage n env s =
      finished_exchange s (concat (map (appended_text n) (split_on 10 (concat chunks))))"
    by (simp add: sendChatMessage_accepted [OF assms(1,2)] tb)
  show "\<forall>line. fragment_is_text line \<longrightarrow> appended_text n line = spec_fragment line"
    by (simp add: appended_text_is_text)
qed

text \<open>
  C3 as amended, at the specification's example: the chunks carrying \<open>Hi\<close> and \<open> there\<close>,
  then \<open>data: [DONE]\<close>, give the assistant content \<open>Hi there\<close>.
\<close>

theorem stream_reducer_appends_fragments_witness:
  "split_on 10 (concat [event_hi @ [10], event_there @ [10], utf16 ''data: [DONE]'' @ [10]])
     = [event_hi, event_there, utf16 ''data: [DONE]'', []] \<and>
   list_all fragment_converts [event_hi, event_there, utf16 ''data: [DONE]'', []] \<and>
   list_all fragment_is_text [event_hi, event_there, utf16 ''data: [DONE]'', []] \<and>
   sendChatMessage (\<lambda>l. l)
     (example_env 200
        [Chunk (event_hi @ [10]), Chunk (event_there @ [10]), Chunk (utf16 ''data: [DONE]'' @ [10])])
     example_state =
   \<lparr>chatMessages =
      [\<lparr>role = User, content = utf16 ''ping''\<rparr>, \<lparr>role = Assistant, content = utf16 ''pong''\<rparr>,
       \<lparr>role = User, content = utf16 ''hello''\<rparr>, \<lparr>role = Assistant, content = utf16 ''Hi there''\<rparr>],
    chatInput = [], chatLoading = False\<rparr>"
proof -
  let ?chunks = "[event_hi @ [10], event_there @ [10], utf16 ''data: [DONE]'' @ [10]]"
  let ?env = "example_env 200 (map Chunk ?chunks)"
  have h1: "trim (chatInput example_state) \<noteq> []" by (simp add: example_input_trimmed utf16_def)
  have h2: "\<not> chatLoading example_state" by (simp add: example_state_def)
  have h3: "apiKey ?env = Some (utf16 ''key'')" by (simp add: example_env_def)
  have h4: "utf16 ''key'' \<noteq> []" by (simp add: utf16_def)
  have h5: "fetch_result ?env = Response 200 (Some (map Chunk ?chunks))" by (simp add: example_env_def)
  have h6: "(200::nat) \<le> 200 \<and> (200::nat) \<le> 299" by simp
  have h7: "\<forall>chunk\<in>set ?chunks. chunk \<noteq> [] \<and> last chunk = 10" by simp
  have h8: "\<forall>line\<in>set (split_on 10 (concat ?chunks)). fragment_converts line"
    unfolding example_stream_lines by (simp add: example_fragments_convert)
  note t = stream_reducer_appends_fragments [OF h1 h2 h3 h4 h5 h6 h7 h8, of "\<lambda>l. l"]
  have same: "appended_text (\<lambda>l. l) line = spec_fragment line" if "fragment_is_text line" for line
    using t that by blast
  have "concat (map (appended_text (\<lambda>l. l)) (split_on 10 (concat ?chunks))) = utf16 ''Hi there''"
    unfolding example_stream_lines
    by (simp add: same example_fragments_are_text spec_fragment_event_hi spec_fragment_event_there,
        simp add: line_eval json_eval)
  with t have "sendChatMessage (\<lambda>l. l) ?env example_state =
      finished_exchange example_state (utf16 ''Hi there'')"
    by simp
  then have final: "sendChatMessage (\<lambda>l. l)
     (example_env 200
        [Chunk (event_hi @ [10]), Chunk (event_there @ [10]), Chunk (utf16 ''data: [DONE]'' @ [10])])
     example_state =
   \<lparr>chatMessages =
      [\<lparr>role = User, content = utf16 ''ping''\<rparr>, \<lparr>role = Assistant, content = utf16 ''pong''\<rparr>,
       \<lparr>role = User, content = utf16 ''hello''\<rparr>, \<lparr>role = Assistant, content = utf16 ''Hi there''\<rparr>],
    chatInput = [], chatLoading = False\<rparr>"
    by (simp add: finished_exchange_def example_input_trimmed) (simp add: example_state_def)
  have conv: "list_all fragment_converts [event_hi, event_there, utf16 ''data: [DONE]'', []]"
    by (simp add: example_fragments_convert)
  have strings: "list_all fragment_is_text [event_hi, event_there, utf16 ''data: [DONE]'', []]"
    by (simp add: example_fragments_are_text)
  show ?thesis
    using example_stream_lines conv strings final by blast
qed

text \<open>
  Claim C3 as stated fails where the value at the path is not a string. An envelope with
  \<open>false\<close> at the path has the path, and yet the reducer appends the empty string, as it
  does for a missing path; an envelope with \<open>true\<close> there makes it append \<open>true\<close>, where
  the specification's reducer has no text fragment to append.
\<close>

theorem falsy_fragment_counterexample:
  "Option.bind (event_of_line event_false) (\<lambda>e. at_path e text_path) = Some (JBool False) \<and>
   sendChatMessage (\<lambda>l. l) (example_env 200 [Chunk (event_false @ [10])]) example_state =
     \<lparr>chatMessages =
        [\<lparr>role = User, content = utf16 ''ping''\<rparr>, \<lparr>role = Assistant, content = utf16 ''pong''\<rparr>,
         \<lparr>role = User, content = utf16 ''hello''\<rparr>, \<lparr>role = Assistant, content = []\<rparr>],
      chatInput = [], chatLoading = False\<rparr> \<and>
   Option.bind (event_of_line event_true) (\<lambda>e. at_path e text_path) = Some (JBool True) \<and>
   spec_fragment event_true = [] \<and>
   sendChatMessage (\<lambda>l. l) (example_env 200 [Chunk (event_true @ [10])]) example_state =
     \<lparr>chatMessages =
        [\<lparr>role = User, content = utf16 ''ping''\<rparr>, \<lparr>role = Assistant, content = utf16 ''pong''\<rparr>,
         \<lparr>role = User, content = utf16 ''hello''\<rparr>, \<lparr>role = Assistant, content = utf16 ''true''\<rparr>],
      chatInput = [], chatLoading = False\<rparr>"
proof -
  have f: "streamed_text (concat (map (chunk_effects (\<lambda>l. l)) [event_false @ [10]])) = []"
    using split_single_line(2)
    by (simp add: chunk_fragment event_false_value appended_text_Nil)
  have t: "streamed_text (concat (map (chunk_effects (\<lambda>l. l)) [event_true @ [10]])) = utf16 ''true''"
    using split_single_line(1)
    by (simp add: chunk_fragment event_true_value appended_text_Nil)
  show ?thesis
    using example_exchange [of "\<lambda>l. l" "[event_false @ [10]]"]
      example_exchange [of "\<lambda>l. l" "[event_true @ [10]]"]
      event_false_value(2) event_true_value(2,4) f t
    by simp
qed



text \<open>
  Claim C5. An accepted submission appends one user turn and one assistant turn with empty
  content; in every later state of the exchange, the final state included, the transcript
  is the transcript before the submission, the same user turn, and an assistant turn:
  only the content of that last turn ever changes.
\<close>

theorem transcript_invariant:
  assumes "trim (chatInput s) \<noteq> []" and "\<not> chatLoading s"
  shows "chatMessages (state_after n env s 4) =
           chatMessages s @
             [\<lparr>role = User, content = trim (chatInput s)\<rparr>, \<lparr>role = Assistant, content = []\<rparr>] \<and>
         (\<forall>k. 4 \<le> k \<longrightarrow>
            (\<exists>c. chatMessages (state_after n env s k) =
                   chatMessages s @
                     [\<lparr>role = User, content = trim (chatInput s)\<rparr>,
                      \<lparr>role = Assistant, content = c\<rparr>]))"
proof (intro conjI allI impI)
  have "take 4 (chat_effects n env s) =
          [SetChatInput [],
            AppendMessage \<lparr>role = User, content = trim (chatInput s)\<rparr>,
            SetChatLoading True,
            AppendMessage \<lparr>role = Assistant, content = []\<rparr>]"
    by (simp add: chat_effects_accepted [OF assms])
  then show "chatMessages (state_after n env s 4) =
           chatMessages s @
             [\<lparr>role = User, content = trim (chatInput s)\<rparr>, \<lparr>role = Assistant, content = []\<rparr>]"
    by (simp add: state_after_def)
next
  fix k :: nat
  assume "4 \<le> k"
  from state_after_cases [OF assms this, of n env]
  show "\<exists>c. chatMessages (state_after n env s k) =
                   chatMessages s @
                     [\<lparr>role = User, content = trim (chatInput s)\<rparr>,
                      \<lparr>role = Assistant, content = c\<rparr>]"
    by (auto simp: started_def finished_exchange_def)
qed

text \<open>C5 at an exchange whose stream fails after one chunk, at its first and its last state.\<close>

theorem transcript_invariant_witness:
  "chatMessages (state_after (\<lambda>l. l) (example_env 200 failing_reads) example_state 4) =
     [\<lparr>role = User, content = utf16 ''ping''\<rparr>, \<lparr>role = Assistant, content = utf16 ''pong''\<rparr>,
      \<lparr>role = User, content = utf16 ''hello''\<rparr>, \<lparr>role = Assistant, content = []\<rparr>] \<and>
   (4::nat) \<le> 6 \<and>
   (\<exists>c. chatMessages (state_after (\<lambda>l. l) (example_env 200 failing_reads) example_state 6) =
     [\<lparr>role = User, content = utf16 ''ping''\<rparr>, \<lparr>role = Assistant, content = utf16 ''pong''\<rparr>,
      \<lparr>role = User, content = utf16 ''hello''\<rparr>, \<lparr>role = Assistant, content = c\<rparr>])"
proof -
  have base: "chatMessages example_state =
     [\<lparr>role = User, content = utf16 ''ping''\<rparr>, \<lparr>role = Assistant, content = utf16 ''pong''\<rparr>]"
    by (simp add: example_state_def)
  from transcript_invariant [OF example_accepted, of "\<lambda>l. l" "example_env 200 failing_reads"]
  show ?thesis
    unfolding example_input_trimmed base by auto
qed

text \<open>
  Claim C6. While an accepted exchange is in flight, \<open>chatLoading\<close> is set, and a further
  submission, whatever the input box holds and whatever its request would meet, issues no
  update and leaves the state as it is; the exchange resets \<open>chatLoading\<close> with its last
  update.
\<close>

theorem one_exchange_in_flight:
  assumes "trim (chatInput s) \<noteq> []" and "\<not> chatLoading s"
  shows "states_in_flight n env s \<noteq> [] \<and>
         (\<forall>t\<in>set (states_in_flight n env s).
            chatLoading t \<and>
            chat_effects n' env' (t\<lparr>chatInput := input\<rparr>) = [] \<and>
            sendChatMessage n' env' (t\<lparr>chatInput := input\<rparr>) = t\<lparr>chatInput := input\<rparr>) \<and>
         \<not> chatLoading (sendChatMessage n env s)"
proof (intro conjI ballI)
  have "4 < length (chat_effects n env s)"
    by (simp add: chat_effects_accepted [OF assms])
  then show "states_in_flight n env s \<noteq> []"
    by (auto simp: states_in_flight_def)
next
  fix t
  assume "t \<in> set (states_in_flight n env s)"
  then obtain k where k: "4 \<le> k" "k < length (chat_effects n env s)" and t: "t = state_after n env s k"
    by (auto simp: states_in_flight_def)
  from state_after_cases [OF assms k(1), of n env] k(2) t
  obtain c where "t = started s c" by auto
  then show "chatLoading t" by (simp add: started_def)
  then show "chat_effects n' env' (t\<lparr>chatInput := input\<rparr>) = []"
    by (simp add: chat_effects_rejected)
  then show "sendChatMessage n' env' (t\<lparr>chatInput := input\<rparr>) = t\<lparr>chatInput := input\<rparr>"
    by (simp add: sendChatMessage_def)
next
  show "\<not> chatLoading (sendChatMessage n env s)"
    by (simp add: sendChatMessage_accepted [OF assms] finished_exchange_def)
qed

text \<open>C6 at an exchange whose stream fails after one chunk, with \<open>again\<close> typed meanwhile.\<close>

theorem one_exchange_in_flight_witness:
  "states_in_flight (\<lambda>l. l) (example_env 200 failing_reads) example_state \<noteq> [] \<and>
   list_all (\<lambda>t. chatLoading t \<and>
        sendChatMessage (\<lambda>l. l) (example_env 200 failing_reads) (t\<lparr>chatInput := utf16 ''again''\<rparr>)
          = t\<lparr>chatInput := utf16 ''again''\<rparr>)
     (states_in_flight (\<lambda>l. l) (example_env 200 failing_reads) example_state) \<and>
   \<not> chatLoading (sendChatMessage (\<lambda>l. l) (example_env 200 failing_reads) example_state)"
  using one_exchange_in_flight [OF example_accepted, of "\<lambda>l. l" "example_env 200 failing_reads"
      "\<lambda>l. l" "example_env 200 failing_reads" "utf16 ''again''"]
  by (simp add: list_all_iff)

text \<open>
  Claim C9. When a chunk has a line \<open>data: \<close> followed by text that is not valid JSON,
  the exchange issues the same updates, and ends in the same state, as with a chunk that
  has the same lines without that one.
\<close>

theorem malformed_line_is_discarded:
  assumes "JSON_parse payload = None"
    and "split_on 10 chunk = lines1 @ (utf16 ''data: '' @ payload) # lines2"
    and "split_on 10 chunk' = lines1 @ lines2"
  shows "chat_effects n (env\<lparr>fetch_result := Response st (Some (before @ Chunk chunk # after))\<rparr>) s =
         chat_effects n (env\<lparr>fetch_result := Response st (Some (before @ Chunk chunk' # after))\<rparr>) s \<and>
         sendChatMessage n (env\<lparr>fetch_result := Response st (Some (before @ Chunk chunk # after))\<rparr>) s =
         sendChatMessage n (env\<lparr>fetch_result := Response st (Some (before @ Chunk chunk' # after))\<rparr>) s"
proof -
  have "chunk_effects n chunk = chunk_effects n chunk'"
    by (simp add: chunk_effects_def assms(2,3) malformed_line_effects [OF assms(1)])
  then have eq: "read_loop n (before @ Chunk chunk # after) = read_loop n (before @ Chunk chunk' # after)"
    by (rule read_loop_replace_chunk)
  show ?thesis
    by (rule conjI; rule sendChatMessage_same_reads; rule eq)
qed

text \<open>
  C9 at the line \<open>data: not-json\<close> between the two events of the example: the content
  is \<open>Hi there\<close> with and without the line.
\<close>

theorem malformed_line_is_discarded_witness:
  "JSON_parse (utf16 ''not-json'') = None \<and>
   sendChatMessage (\<lambda>l. l)
     (example_env 200 [Chunk chunk_with_malformed_line, Chunk (utf16 ''data: [DONE]'' @ [10])])
     example_state =
   sendChatMessage (\<lambda>l. l)
     (example_env 200 [Chunk chunk_without_malformed_line, Chunk (utf16 ''data: [DONE]'' @ [10])])
     example_state \<and>
   sendChatMessage (\<lambda>l. l)
     (example_env 200 [Chunk chunk_with_malformed_line, Chunk (utf16 ''data: [DONE]'' @ [10])])
     example_state =
   \<lparr>chatMessages =
      [\<lparr>role = User, content = utf16 ''ping''\<rparr>, \<lparr>role = Assistant, content = utf16 ''pong''\<rparr>,
       \<lparr>role = User, content = utf16 ''hello''\<rparr>, \<lparr>role = Assistant, content = utf16 ''Hi there''\<rparr>],
    chatInput = [], chatLoading = False\<rparr>"
proof -
  have bad: "JSON_parse (utf16 ''not-json'') = None"
    by (simp add: json_eval)
  have l1: "split_on 10 chunk_with_malformed_line =
              [event_hi] @ (utf16 ''data: '' @ utf16 ''not-json'') # [event_there, []]"
    by (simp add: split_example_chunks utf16_def)
  have l2: "split_on 10 chunk_without_malformed_line = [event_hi] @ [event_there, []]"
    by (simp add: split_example_chunks)
  have env: "example_env 200 (Chunk c # rest) =
               (example_env 200 [])\<lparr>fetch_result := Response 200 (Some ([] @ Chunk c # rest))\<rparr>" for c rest
    by (simp add: example_env_def)
  have same: "sendChatMessage (\<lambda>l. l)
     (example_env 200 [Chunk chunk_with_malformed_line, Chunk (utf16 ''data: [DONE]'' @ [10])])
     example_state =
   sendChatMessage (\<lambda>l. l)
     (example_env 200 [Chunk chunk_without_malformed_line, Chunk (utf16 ''data: [DONE]'' @ [10])])
     example_state"
    unfolding env using malformed_line_is_discarded [OF bad l1 l2] by blast
  have "streamed_text (concat (map (chunk_effects (\<lambda>l. l))
          [chunk_without_malformed_line, utf16 ''data: [DONE]'' @ [10]])) = utf16 ''Hi there''"
    by (simp add: chunk_effects_def split_example_chunks split_on_append [of 10 _ "[]", simplified]
        split_on_no_sep no_newline_in_examples line_effects_event_hi line_effects_event_there
        line_effects_done line_effects_Nil streamed_text_def)
       (simp add: utf16_def)
  then have "sendChatMessage (\<lambda>l. l)
     (example_env 200 [Chunk chunk_without_malformed_line, Chunk (utf16 ''data: [DONE]'' @ [10])])
     example_state =
   \<lparr>chatMessages =
      [\<lparr>role = User, content = utf16 ''ping''\<rparr>, \<lparr>role = Assistant, content = utf16 ''pong''\<rparr>,
       \<lparr>role = User, content = utf16 ''hello''\<rparr>, \<lparr>role = Assistant, content = utf16 ''Hi there''\<rparr>],
    chatInput = [], chatLoading = False\<rparr>"
    using example_exchange [of "\<lambda>l. l" "[chunk_without_malformed_line, utf16 ''data: [DONE]'' @ [10]]"]
    by simp
  with bad same show ?thesis by simp
qed

text \<open>
  Claim C10, as amended. Let the line \<open>data: \<close> followed by a payload be split after its
  first \<open>k\<close> code units, the first part ending one chunk and the second part starting
  the next. When the split falls inside the prefix \<open>data: \<close>, or when the payload is
  valid JSON and the second part holds more than JSON white space, both parts are
  discarded: the exchange ends as if the line were not in the stream, and the fragment of
  the event is lost.
\<close>

theorem split_event_line_is_dropped:
  fixes payload :: jsstring and k :: nat
  defines "line \<equiv> utf16 ''data: '' @ payload"
  assumes "10 \<notin> set payload" and "0 < k"
    and "k < 6 \<or>
         (JSON_parse payload \<noteq> None \<and> \<not> list_all is_json_ws (drop k line))"
    and "pre = [] \<or> last pre = 10"
  shows "sendChatMessage n
           (env\<lparr>fetch_result := Response st
              (Some (before @ Chunk (pre @ take k line) # Chunk (drop k line @ 10 # post) # after))\<rparr>) s =
         sendChatMessage n
           (env\<lparr>fetch_result := Response st (Some (before @ Chunk pre # Chunk post # after))\<rparr>) s"
proof -
  have nl: "10 \<notin> set line"
    using assms(2) by (auto simp: line_def utf16_def)
  then have nl_h: "10 \<notin> set (take k line)" and nl_t: "10 \<notin> set (drop k line)"
    by (auto dest: in_set_takeD in_set_dropD)
  have h: "line_effects n (take k line) = []"
  proof (cases "k < 6")
    case True
    then have "length (take k line) < 6" by simp
    then show ?thesis
      by (simp add: no_event_effects short_is_no_event)
  next
    case False
    have len: "length (utf16 ''data: '') = 6"
      by (simp add: utf16_def)
    from False have k: "take k line = utf16 ''data: '' @ take (k - 6) payload"
      and d: "drop k line = drop (k - 6) payload"
      by (simp_all add: line_def len)
    from False assms(4) have "JSON_parse (take (k - 6) payload @ drop (k - 6) payload) \<noteq> None"
      and "\<not> list_all is_json_ws (drop (k - 6) payload)"
      by (simp_all add: d)
    then show ?thesis
      unfolding k by (rule first_part_no_event)
  qed
  have t: "line_effects n (drop k line) = []"
  proof (cases "k < 6")
    case True
    with assms(3) have "\<not> startsWith (drop k line) (utf16 ''data: '')"
      unfolding line_def by (rule prefix_tail_is_no_event)
    then show ?thesis by (simp add: no_event_effects)
  next
    case False
    have len: "length (utf16 ''data: '') = 6"
      by (simp add: utf16_def)
    from False have d: "drop k line = drop (k - 6) payload"
      by (simp add: line_def len)
    show ?thesis
    proof (cases "startsWith (drop k line) (utf16 ''data: '')")
      case no: False
      then show ?thesis by (simp add: no_event_effects)
    next
      case yes: True
      define S where "S = drop 6 (drop k line)"
      have t_eq: "drop k line = utf16 ''data: '' @ S"
        using yes unfolding S_def by (metis append_take_drop_id len startsWith_def)
      have "payload = take (k - 6) payload @ utf16 ''data: '' @ S"
        by (metis append_take_drop_id d t_eq)
      moreover have "JSON_parse payload \<noteq> None"
        using False assms(4) by simp
      ultimately have "JSON_parse (take (k - 6) payload @ utf16 ''data: '' @ S) \<noteq> None"
        by metis
      then have "line_effects n (utf16 ''data: '' @ S) = []"
        by (rule second_part_no_event)
      then show ?thesis
        by (simp only: t_eq)
    qed
  qed
  have first: "chunk_effects n (pre @ take k line) = chunk_effects n pre"
  proof (cases "pre = []")
    case True
    then show ?thesis
      by (simp add: chunk_effects_line [OF nl_h] h chunk_effects_Nil)
  next
    case False
    with assms(5) have pre: "pre = butlast pre @ [10]"
      by (simp add: ends_with_newline)
    have "chunk_effects n (pre @ take k line) = chunk_effects n (butlast pre @ 10 # take k line)"
      by (subst pre) simp
    also have "\<dots> = chunk_effects n (butlast pre) @ chunk_effects n (take k line)"
      by (rule chunk_effects_append)
    also have "\<dots> = chunk_effects n (butlast pre) @ chunk_effects n []"
      by (simp add: chunk_effects_line [OF nl_h] h chunk_effects_Nil)
    also have "\<dots> = chunk_effects n (butlast pre @ 10 # [])"
      by (rule chunk_effects_append [symmetric])
    also have "\<dots> = chunk_effects n pre"
      using pre by simp
    finally show ?thesis .
  qed
  have second: "chunk_effects n (drop k line @ 10 # post) = chunk_effects n post"
    by (simp add: chunk_effects_append chunk_effects_line [OF nl_t] t)
  have "read_loop n (before @ Chunk (pre @ take k line) # Chunk (drop k line @ 10 # post) # after) =
        read_loop n (before @ Chunk pre # Chunk post # after)"
    by (rule read_loop_replace_two_chunks) (simp add: first second)
  then show ?thesis
    by (rule sendChatMessage_same_reads)
qed

text \<open>C10 as amended, at the event carrying \<open>Hi\<close>, split after 20 code units.\<close>

theorem split_event_line_is_dropped_witness:
  "JSON_parse (drop 6 event_hi) \<noteq> None \<and>
   \<not> list_all is_json_ws (drop 20 event_hi) \<and>
   sendChatMessage (\<lambda>l. l)
     (example_env 200 [Chunk (take 20 event_hi), Chunk (drop 20 event_hi @ [10])]) example_state =
   sendChatMessage (\<lambda>l. l) (example_env 200 [Chunk [], Chunk []]) example_state \<and>
   sendChatMessage (\<lambda>l. l)
     (example_env 200 [Chunk (take 20 event_hi), Chunk (drop 20 event_hi @ [10])]) example_state =
   \<lparr>chatMessages =
      [\<lparr>role = User, content = utf16 ''ping''\<rparr>, \<lparr>role = Assistant, content = utf16 ''pong''\<rparr>,
       \<lparr>role = User, content = utf16 ''hello''\<rparr>, \<lparr>role = Assistant, content = []\<rparr>],
    chatInput = [], chatLoading = False\<rparr>"
proof -
  define payload where "payload = drop 6 event_hi"
  have line: "event_hi = utf16 ''data: '' @ payload"
    by (simp add: payload_def event_hi_def utf16_def)
  have h1: "10 \<notin> set payload"
    using no_newline_in_examples(1) by (auto simp: payload_def dest: in_set_dropD)
  have h2: "JSON_parse payload \<noteq> None"
    by (simp add: payload_def event_hi_def json_eval)
  have h2': "\<not> list_all is_json_ws (drop 20 event_hi)"
    by (simp add: event_hi_def utf16_def is_json_ws_def)
  have env: "example_env 200 (Chunk a # Chunk b # rest) =
               (example_env 200 [])\<lparr>fetch_result := Response 200 (Some ([] @ Chunk ([] @ a) # Chunk b # rest))\<rparr>"
    for a b rest
    by (simp add: example_env_def)
  have env': "example_env 200 (Chunk a # Chunk b # rest) =
               (example_env 200 [])\<lparr>fetch_result := Response 200 (Some ([] @ Chunk a # Chunk b # rest))\<rparr>"
    for a b rest
    by (simp add: example_env_def)
  have same: "sendChatMessage (\<lambda>l. l)
     (example_env 200 [Chunk (take 20 event_hi), Chunk (drop 20 event_hi @ [10])]) example_state =
   sendChatMessage (\<lambda>l. l) (example_env 200 [Chunk [], Chunk []]) example_state"
    unfolding env [of "take 20 event_hi"] env' [of "[]"]
    using split_event_line_is_dropped [where payload = payload and k = 20 and pre = "[]"
        and n = "\<lambda>l. l" and env = "example_env 200 []" and st = 200 and before = "[]"
        and post = "[]" and after = "[]" and s = example_state] h1 h2 h2'
    by (simp add: line [symmetric])
  have "sendChatMessage (\<lambda>l. l) (example_env 200 [Chunk [], Chunk []]) example_state =
   \<lparr>chatMessages =
      [\<lparr>role = User, content = utf16 ''ping''\<rparr>, \<lparr>role = Assistant, content = utf16 ''pong''\<rparr>,
       \<lparr>role = User, content = utf16 ''hello''\<rparr>, \<lparr>role = Assistant, content = []\<rparr>],
    chatInput = [], chatLoading = False\<rparr>"
    using example_exchange [of "\<lambda>l. l" "[[], []]"]
    by (simp add: chunk_effects_Nil streamed_text_def)
  with same h2 h2' show ?thesis by (simp add: payload_def)
qed

text \<open>
  Claim C10 as stated fails when the split falls behind the payload: of the line
  \<open>data: \<close>, the event carrying \<open>Hi\<close>, and a carriage return, split before the carriage
  return, the first part is a complete event, and \<open>Hi\<close> is appended.
\<close>

theorem split_after_payload_counterexample:
  "split_on 10 (event_hi @ [13, 10]) = [event_hi @ [13], []] \<and>
   sendChatMessage (\<lambda>l. l) (example_env 200 [Chunk event_hi, Chunk [13, 10]]) example_state =
   \<lparr>chatMessages =
      [\<lparr>role = User, content = utf16 ''ping''\<rparr>, \<lparr>role = Assistant, content = utf16 ''pong''\<rparr>,
       \<lparr>role = User, content = utf16 ''hello''\<rparr>, \<lparr>role = Assistant, content = utf16 ''Hi''\<rparr>],
    chatInput = [], chatLoading = False\<rparr>"
proof -
  have "split_on 10 (event_hi @ [13, 10]) = [event_hi @ [13], []]"
    using split_on_append [of 10 "event_hi @ [13]" "[]"] no_newline_in_examples(1)
    by (simp add: split_on_no_sep)
  moreover have "streamed_text (concat (map (chunk_effects (\<lambda>l. l)) [event_hi, [13, 10]])) = utf16 ''Hi''"
    by (simp add: chunk_effects_line no_newline_in_examples line_effects_event_hi streamed_text_def)
       (simp add: chunk_effects_def line_effects_def startsWith_def utf16_def)
  ultimately show ?thesis
    using example_exchange [of "\<lambda>l. l" "[event_hi, [13, 10]]"] by simp
qed

end
